theory Spec2Isabelle
  imports Main "HOL-Library.Word" "HOL-Library.Signed_Division" "HOL-Library.AList"
begin

unbundle bit_operations_syntax

section \<open>Attribute values and the per-column conversion rules (csvtodynamo/convert.go)\<close>

text \<open>
  A Go \<^verbatim>\<open>string\<close> is a sequence of bytes, as is a HOL \<^typ>\<open>string\<close>.
  \<^verbatim>\<open>dynamodb.AttributeValue\<close> is a tagged value; the constructors carry the names of the
  setters the converter calls (\<^verbatim>\<open>SetS\<close>, \<^verbatim>\<open>SetN\<close>, \<^verbatim>\<open>SetBOOL\<close>, \<^verbatim>\<open>SetB\<close>).  The nested-map
  rule \<^verbatim>\<open>mapValue\<close> hands the text to the JSON decoder of the SDK and is not embedded here;
  \<^verbatim>\<open>KeyToConverter\<close> below holds arbitrary conversion functions, so nothing depends on it.
\<close>

type_synonym byte = "8 word"

datatype AttributeValue =
    SetS string
  | SetN string
  | SetBOOL bool
  | SetB "byte list"

type_synonym keyConverter = "string \<Rightarrow> AttributeValue"

definition stringValue :: keyConverter where
  "stringValue s = SetS s"

definition numberValue :: keyConverter where
  "numberValue s = SetN s"

definition trueValue :: AttributeValue where
  "trueValue = SetBOOL True"

definition falseValue :: AttributeValue where
  "falseValue = SetBOOL False"

definition boolValues :: "string \<rightharpoonup> AttributeValue" where
  "boolValues =
     [''false'' \<mapsto> falseValue,
      ''FALSE'' \<mapsto> falseValue,
      ''true'' \<mapsto> trueValue,
      ''TRUE'' \<mapsto> trueValue]"

definition boolValue :: keyConverter where
  "boolValue s = (case boolValues s of Some v \<Rightarrow> v | None \<Rightarrow> falseValue)"

subsection \<open>Binary columns: the standard base64 decoding used by \<^verbatim>\<open>binValue\<close>\<close>

text \<open>
  \<^verbatim>\<open>binValue\<close> calls \<^verbatim>\<open>base64.StdEncoding.DecodeString\<close> of the Go library and drops the
  error.  The decoder is embedded as the library documents and implements it: the
  standard alphabet of RFC 4648 with \<^verbatim>\<open>=\<close> padding, not strict, line breaks ignored;
  \<^verbatim>\<open>Decode\<close> runs \<^verbatim>\<open>decodeQuantum\<close> until the source is used up and, at corrupt input,
  returns the number of bytes written so far together with the error, and
  \<^verbatim>\<open>DecodeString\<close> returns that prefix of its buffer.  The library's whole-word fast paths
  compute what \<^verbatim>\<open>decodeQuantum\<close> computes and are not repeated.  The offset carried by
  \<^verbatim>\<open>CorruptInputError\<close> is not kept: the error is the flag in the result.
\<close>

definition encodeStd :: string where
  "encodeStd = ''ABCDEFGHIJKLMNOPQRSTUVWXYZabcdefghijklmnopqrstuvwxyz0123456789+/''"

definition padChar :: char where
  "padChar = CHR ''=''"

fun indexByte :: "string \<Rightarrow> char \<Rightarrow> nat \<Rightarrow> nat option" where
  "indexByte [] c i = None"
| "indexByte (x # xs) c i = (if x = c then Some i else indexByte xs c (Suc i))"

text \<open>\<^verbatim>\<open>decodeMap\<close>: 0xff everywhere but at the bytes of the alphabet, which map to their index.\<close>

definition decodeMap :: "char \<Rightarrow> byte" where
  "decodeMap c = (case indexByte encodeStd c 0 of Some i \<Rightarrow> of_nat i | None \<Rightarrow> 0xff)"

definition isNewline :: "char \<Rightarrow> bool" where
  "isNewline c = (c = CHR 0x0A \<or> c = CHR 0x0D)"

text \<open>
  The end of \<^verbatim>\<open>decodeQuantum\<close>: the (zero-filled) four six-bit values are packed into 24
  bits and the first \<open>dlen - 1\<close> of the three bytes are written.
\<close>

definition quantumBytes :: "byte list \<Rightarrow> nat \<Rightarrow> byte list" where
  "quantumBytes dbuf dlen =
     (let d = dbuf @ replicate (4 - length dbuf) 0;
          val = push_bit 18 (ucast (d ! 0) :: 64 word) OR push_bit 12 (ucast (d ! 1))
                OR push_bit 6 (ucast (d ! 2)) OR ucast (d ! 3)
      in take (dlen - 1) [ucast (drop_bit 16 val), ucast (drop_bit 8 val), ucast val])"

text \<open>
  \<^verbatim>\<open>decodeQuantum\<close> with the loop counter \<open>j\<close> and the values read so far as arguments.
  The result is the source left to read, the bytes written and whether the input is corrupt.
\<close>

fun decodeQuantum :: "nat \<Rightarrow> byte list \<Rightarrow> string \<Rightarrow> string \<times> byte list \<times> bool" where
  "decodeQuantum j dbuf [] = (if j = 0 then ([], [], False) else ([], [], True))"
| "decodeQuantum j dbuf (c # src) =
     (if decodeMap c \<noteq> 0xff then
        (if j = 3 then (src, quantumBytes (dbuf @ [decodeMap c]) 4, False)
         else decodeQuantum (Suc j) (dbuf @ [decodeMap c]) src)
      else if isNewline c then decodeQuantum j dbuf src
      else if c \<noteq> padChar then (src, [], True)
      else if j = 0 \<or> j = 1 then (src, [], True)
      else if j = 2 then
        (case dropWhile isNewline src of
           [] \<Rightarrow> ([], [], True)
         | c' # src' \<Rightarrow>
             if c' \<noteq> padChar then (c' # src', [], True)
             else (dropWhile isNewline src', quantumBytes dbuf j,
                   dropWhile isNewline src' \<noteq> []))
      else (dropWhile isNewline src, quantumBytes dbuf j, dropWhile isNewline src \<noteq> []))"

lemma decodeQuantum_length:
  "decodeQuantum j dbuf src = (rest, bs, err) \<Longrightarrow> length rest \<le> length src"
proof (induction j dbuf src rule: decodeQuantum.induct)
  case (1 j dbuf)
  then show ?case by (simp split: if_splits)
next
  case (2 j dbuf c src)
  have dw: "\<And>xs. length (dropWhile isNewline xs) \<le> length xs"
    by (simp add: length_dropWhile_le)
  have dw2: "\<And>a xs ys. dropWhile isNewline xs = a # ys \<Longrightarrow>
      length (dropWhile isNewline ys) \<le> length xs"
    by (metis dw le_SucI le_trans length_Cons)
  from 2 show ?case
    by (auto split: if_splits list.splits simp: le_SucI dw dest: dw2)
qed

lemma decodeQuantum_shorter:
  assumes "decodeQuantum j dbuf (c # src) = (rest, bs, err)"
  shows "length rest < length (c # src)"
proof -
  have dw: "\<And>xs. length (dropWhile isNewline xs) \<le> length xs"
    by (simp add: length_dropWhile_le)
  have dw2: "\<And>a xs ys. dropWhile isNewline xs = a # ys \<Longrightarrow>
      length (dropWhile isNewline ys) \<le> length xs"
    by (metis dw le_SucI le_trans length_Cons)
  have dw3: "\<And>a xs ys. dropWhile isNewline xs = a # ys \<Longrightarrow> length ys < length xs"
    by (metis dw length_Cons less_eq_Suc_le)
  from assms show ?thesis
    by (auto split: if_splits list.splits simp: less_Suc_eq_le dw
        dest: dw2 dw3 decodeQuantum_length)
qed

function Decode :: "string \<Rightarrow> byte list \<times> bool" where
  "Decode src =
     (if src = [] then ([], False)
      else (case decodeQuantum 0 [] src of
              (rest, bs, err) \<Rightarrow>
                if err then (bs, True)
                else (case Decode rest of (bs', err') \<Rightarrow> (bs @ bs', err'))))"
  by pat_completeness auto
termination
  by (relation "measure length")
    (auto simp del: decodeQuantum.simps simp: neq_Nil_conv dest: decodeQuantum_shorter [OF sym])

declare Decode.simps [simp del]

definition DecodeString :: "string \<Rightarrow> byte list \<times> bool" where
  "DecodeString s = Decode s"

definition binValue :: keyConverter where
  "binValue s = (case DecodeString s of (b, _) \<Rightarrow> SetB b)"

section \<open>The CSV reader as the converter uses it\<close>

text \<open>
  The converter reads records from a \<^verbatim>\<open>csv.Reader\<close>.  The reader is embedded from the
  record level up: its input is the list of records still to come, and it keeps
  \<^verbatim>\<open>FieldsPerRecord\<close>, which is 0 in a reader made by \<^verbatim>\<open>csv.NewReader\<close>, is set to the
  field count of the first record read, and from then on makes \<^verbatim>\<open>Read\<close> report
  \<^verbatim>\<open>ErrFieldCount\<close> (with the record) for a record of another field count.  At the end of
  the input \<^verbatim>\<open>Read\<close> returns no record and \<^verbatim>\<open>io.EOF\<close>.
\<close>

datatype error = EOF | ErrFieldCount

record Reader =
  pending :: "string list list"
  FieldsPerRecord :: int

definition NewReader :: "string list list \<Rightarrow> Reader" where
  "NewReader records = \<lparr>pending = records, FieldsPerRecord = 0\<rparr>"

definition Reader_Read :: "Reader \<Rightarrow> (string list \<times> error option) \<times> Reader" where
  "Reader_Read rd =
     (case pending rd of
        [] \<Rightarrow> (([], Some EOF), rd)
      | record # rest \<Rightarrow>
          (if FieldsPerRecord rd > 0 then
             (if int (length record) \<noteq> FieldsPerRecord rd
              then ((record, Some ErrFieldCount), rd\<lparr>pending := rest\<rparr>)
              else ((record, None), rd\<lparr>pending := rest\<rparr>))
           else if FieldsPerRecord rd = 0 then
             ((record, None), rd\<lparr>pending := rest, FieldsPerRecord := int (length record)\<rparr>)
           else ((record, None), rd\<lparr>pending := rest\<rparr>)))"

section \<open>The converter (csvtodynamo/convert.go)\<close>

record Configuration =
  KeyToConverter :: "string \<rightharpoonup> keyConverter"
  Columns :: "string list"
  KeyColumns :: "string list"

definition NewConfiguration :: Configuration where
  "NewConfiguration = \<lparr>KeyToConverter = Map.empty, Columns = [], KeyColumns = []\<rparr>"

definition AddStringKeys :: "string list \<Rightarrow> Configuration \<Rightarrow> Configuration" where
  "AddStringKeys s cf = cf\<lparr>KeyToConverter := fold (\<lambda>k m. m(k \<mapsto> stringValue)) s (KeyToConverter cf)\<rparr>"

definition AddNumberKeys :: "string list \<Rightarrow> Configuration \<Rightarrow> Configuration" where
  "AddNumberKeys s cf = cf\<lparr>KeyToConverter := fold (\<lambda>k m. m(k \<mapsto> numberValue)) s (KeyToConverter cf)\<rparr>"

definition AddBoolKeys :: "string list \<Rightarrow> Configuration \<Rightarrow> Configuration" where
  "AddBoolKeys s cf = cf\<lparr>KeyToConverter := fold (\<lambda>k m. m(k \<mapsto> boolValue)) s (KeyToConverter cf)\<rparr>"

definition AddBinKeys :: "string list \<Rightarrow> Configuration \<Rightarrow> Configuration" where
  "AddBinKeys s cf = cf\<lparr>KeyToConverter := fold (\<lambda>k m. m(k \<mapsto> binValue)) s (KeyToConverter cf)\<rparr>"

definition AddKeyColumns :: "string list \<Rightarrow> Configuration \<Rightarrow> Configuration" where
  "AddKeyColumns s cf = cf\<lparr>KeyColumns := fold (\<lambda>k ks. ks @ [k]) s (KeyColumns cf)\<rparr>"

text \<open>
  \<^verbatim>\<open>columnNamesToInclude\<close> is a Go map whose size is tested; it is kept as an association
  list with one entry per key, so that its size is the length of the list.
\<close>

record Converter =
  r :: Reader
  conf :: Configuration
  columnNames :: "string list"
  columnNamesToInclude :: "(string \<times> bool) list"

type_synonym item = "string \<rightharpoonup> AttributeValue"

datatype panic = IndexOutOfRange

definition init :: "Converter \<Rightarrow> error option \<times> Converter" where
  "init c =
     (let c1 = (if length (KeyColumns (conf c)) > 0
                then c\<lparr>columnNamesToInclude :=
                        fold (\<lambda>k m. AList.update k True m) (KeyColumns (conf c)) []\<rparr>
                else c)
      in if length (Columns (conf c1)) > 0 then (None, c1\<lparr>columnNames := Columns (conf c1)\<rparr>)
         else (case Reader_Read (r c1) of
                 ((record, Some e), rd) \<Rightarrow> (Some e, c1\<lparr>r := rd\<rparr>)
               | ((record, None), rd) \<Rightarrow>
                   (None, if columnNames c1 = [] then c1\<lparr>r := rd, columnNames := record\<rparr>
                          else c1\<lparr>r := rd\<rparr>)))"

definition NewConverter :: "Reader \<Rightarrow> Configuration option \<Rightarrow> Converter \<times> error option" where
  "NewConverter rd cfo =
     (let cf = (case cfo of None \<Rightarrow> NewConfiguration | Some cf \<Rightarrow> cf);
          c = \<lparr>r = rd, conf = cf, columnNames = [], columnNamesToInclude = []\<rparr>
      in case init c of (err, c') \<Rightarrow> (c', err))"

definition dynamoValue :: "Converter \<Rightarrow> string \<Rightarrow> string \<Rightarrow> AttributeValue" where
  "dynamoValue c key val =
     (case KeyToConverter (conf c) key of Some f \<Rightarrow> f val | None \<Rightarrow> stringValue val)"

text \<open>The allow-list test of \<^verbatim>\<open>Read\<close>: a key missing from the Go map reads as false.\<close>

definition skipped :: "Converter \<Rightarrow> string \<Rightarrow> bool" where
  "skipped c column =
     (length (columnNamesToInclude c) > 0 \<and>
      \<not> (case map_of (columnNamesToInclude c) column of Some b \<Rightarrow> b | None \<Rightarrow> False))"

text \<open>
  The loop of \<^verbatim>\<open>Read\<close> over \<^verbatim>\<open>columnNames\<close>, at index \<open>i\<close>.  \<^verbatim>\<open>record[i]\<close> panics when
  \<open>i\<close> is not an index of the record; the test comes after the allow-list test, as in the
  source.
\<close>

fun Read_loop :: "Converter \<Rightarrow> string list \<Rightarrow> nat \<Rightarrow> string list \<Rightarrow> item \<Rightarrow> panic + item" where
  "Read_loop c record i [] items = Inr items"
| "Read_loop c record i (column # columns) items =
     (if skipped c column then Read_loop c record (Suc i) columns items
      else if length record \<le> i then Inl IndexOutOfRange
      else if length (record ! i) \<noteq> 0
        then Read_loop c record (Suc i) columns (items(column \<mapsto> dynamoValue c column (record ! i)))
        else Read_loop c record (Suc i) columns items)"

text \<open>\<^verbatim>\<open>Read\<close>: the item is \<open>None\<close> for the nil map returned with an error.\<close>

definition Read :: "Converter \<Rightarrow> panic + (item option \<times> error option) \<times> Converter" where
  "Read c =
     (case Reader_Read (r c) of
        ((record, Some e), rd) \<Rightarrow> Inr ((None, Some e), c\<lparr>r := rd\<rparr>)
      | ((record, None), rd) \<Rightarrow>
          (case Read_loop c record 0 (columnNames c) Map.empty of
             Inl p \<Rightarrow> Inl p
           | Inr items \<Rightarrow> Inr ((Some items, None), c\<lparr>r := rd\<rparr>)))"

text \<open>
  \<^verbatim>\<open>ReadBatch\<close>: \<open>items\<close> is the slice of \<open>batchSize\<close> nil maps, \<open>read\<close> the loop counter;
  the result is \<^verbatim>\<open>items[:read]\<close>, \<open>read\<close> and the last error.
\<close>

function ReadBatch_loop ::
  "nat \<Rightarrow> Converter \<Rightarrow> item option list \<Rightarrow> nat \<Rightarrow>
   panic + (item option list \<times> nat \<times> error option) \<times> Converter" where
  "ReadBatch_loop batchSize c items read =
     (if read < batchSize then
        (case Read c of
           Inl p \<Rightarrow> Inl p
         | Inr ((it, err), c') \<Rightarrow>
             if err \<noteq> None then Inr ((take read (items[read := it]), read, err), c')
             else ReadBatch_loop batchSize c' (items[read := it]) (Suc read))
      else Inr ((take read items, read, None), c))"
  by pat_completeness auto
termination
  by (relation "measure (\<lambda>(batchSize, c, items, read). batchSize - read)") auto

declare ReadBatch_loop.simps [simp del]

definition ReadBatch ::
  "Converter \<Rightarrow> panic + (item option list \<times> nat \<times> error option) \<times> Converter" where
  "ReadBatch c = ReadBatch_loop 25 c (replicate 25 None) 0"

section \<open>The delimiter flag (package main)\<close>

text \<open>A \<^verbatim>\<open>rune\<close> obtained from one byte of the flag, or one of the two literals, is a \<^typ>\<open>char\<close>.\<close>

definition tab :: char where
  "tab = CHR 0x09"

definition comma :: char where
  "comma = CHR '',''"

definition delimiter :: "string \<Rightarrow> char" where
  "delimiter s =
     (if s = [comma] \<or> s = [tab] then s ! 0
      else if s = ''tab'' then tab
      else comma)"

section \<open>Local import (package main, \<^verbatim>\<open>importLocal\<close>)\<close>

subsection \<open>The ingestion loop\<close>

text \<open>
  The loop that pushes batches into the channel ends at \<^verbatim>\<open>io.EOF\<close>, after sending the
  batch that came with it, and ends the process at any other error, before sending.  It
  terminates because a \<^verbatim>\<open>ReadBatch\<close> without error has consumed 25 records; the lemmas
  below carry that fact to the termination proof.
\<close>

type_synonym batch = "item option list"

lemma Reader_Read_pending:
  "Reader_Read rd = ((row, e), rd') \<Longrightarrow>
   length (pending rd') \<le> length (pending rd) \<and>
   (e \<noteq> Some EOF \<longrightarrow> length (pending rd') < length (pending rd))"
  by (auto simp: Reader_Read_def split: list.splits if_splits)

lemma Read_pending:
  assumes "Read c = Inr ((it, e), c')"
  shows "length (pending (r c')) \<le> length (pending (r c))"
    and "e \<noteq> Some EOF \<Longrightarrow> length (pending (r c')) < length (pending (r c))"
proof -
  obtain row e0 rd where rr: "Reader_Read (r c) = ((row, e0), rd)"
    by (metis prod.exhaust)
  from assms rr have "r c' = rd \<and> e = e0"
    by (auto simp: Read_def split: option.splits sum.splits)
  with Reader_Read_pending [OF rr]
  show "length (pending (r c')) \<le> length (pending (r c))"
    and "e \<noteq> Some EOF \<Longrightarrow> length (pending (r c')) < length (pending (r c))"
    by auto
qed

lemma ReadBatch_loop_pending:
  "ReadBatch_loop B c items read = Inr ((its, k, e), c') \<Longrightarrow>
   length (pending (r c')) \<le> length (pending (r c)) \<and>
   (e = None \<and> read < B \<longrightarrow> length (pending (r c')) < length (pending (r c)))"
proof (induction B c items read rule: ReadBatch_loop.induct)
  case (1 batchSize c items read)
  show ?case
  proof (cases "read < batchSize")
    case False
    with "1.prems" show ?thesis by (simp add: ReadBatch_loop.simps)
  next
    case True
    show ?thesis
    proof (cases "Read c")
      case (Inl p)
      with True "1.prems" show ?thesis by (simp add: ReadBatch_loop.simps)
    next
      case (Inr res)
      obtain it err c1 where res: "res = ((it, err), c1)" by (metis prod.exhaust)
      note rp = Read_pending [OF Inr [unfolded res]]
      show ?thesis
      proof (cases "err = None")
        case False
        with True Inr res "1.prems" rp(1) show ?thesis
          by (subst (asm) ReadBatch_loop.simps) auto
      next
        case en: True
        have "ReadBatch_loop batchSize c1 (items[read := it]) (Suc read) = Inr ((its, k, e), c')"
          using "1.prems"(1) True Inr res en by (subst (asm) ReadBatch_loop.simps) simp
        from "1.IH" [OF True Inr res [symmetric] refl _ this] en rp
        show ?thesis by auto
      qed
    qed
  qed
qed

lemma ReadBatch_pending:
  "ReadBatch c = Inr ((its, k, None), c') \<Longrightarrow> length (pending (r c')) < length (pending (r c))"
  unfolding ReadBatch_def using ReadBatch_loop_pending [of 25 c _ 0 its k None c'] by simp

datatype ending = Closed | FatalRead error | Panicked

text \<open>
  \<open>produce reader\<close> is the list of batches the loop sends on the channel, in order, and
  the way the loop ends: the channel closed after \<^verbatim>\<open>io.EOF\<close>, \<^verbatim>\<open>logger.Fatal\<close> on another
  error, or the panic of \<^verbatim>\<open>Read\<close>.  A send can block for good on the full channel; that is
  decided in \<^verbatim>\<open>importLocal\<close> below, from the batches the workers leave unreceived.
\<close>

function produce :: "Converter \<Rightarrow> batch list \<times> ending" where
  "produce reader =
     (case ReadBatch reader of
        Inl p \<Rightarrow> ([], Panicked)
      | Inr ((batch, n, err), reader') \<Rightarrow>
          (case err of
             Some e \<Rightarrow> if e \<noteq> EOF then ([], FatalRead e) else ([batch], Closed)
           | None \<Rightarrow> (case produce reader' of (queue, e) \<Rightarrow> (batch # queue, e))))"
  by pat_completeness auto
termination
  by (relation "measure (\<lambda>c. length (pending (r c)))") (auto dest: ReadBatch_pending)

declare produce.simps [simp del]

subsection \<open>The workers\<close>

text \<open>
  The state the workers share: the two counters (\<^verbatim>\<open>int64\<close>, changed by atomic additions
  only), and, to state what a run did, the calls of the sink with their outcome and the
  log.  A progress entry is kept with the value of the batch counter that triggered it;
  the record count and the rate that the source logs with it depend on the interleaving
  and on the clock.  \<^verbatim>\<open>batchCount\<close> is declared with the initial value 1, \<^verbatim>\<open>recordCount\<close>
  with 0.
\<close>

datatype logEntry = Progress "64 word" | WriteError

record Shared =
  batchCount :: "64 word"
  recordCount :: "64 word"
  written :: "(batch \<times> bool) list"
  logged :: "logEntry list"

definition startShared :: Shared where
  "startShared = \<lparr>batchCount = 1, recordCount = 0, written = [], logged = []\<rparr>"

text \<open>
  The body of a worker's loop for one batch.  The sink \<^verbatim>\<open>batchWriter.Write\<close> is outside
  this development; \<open>ok\<close> is whether its call returned no error.  The result says whether
  the worker goes on to the next batch: after a failed write it logs and returns.  Go's
  \<^verbatim>\<open>%\<close> truncates, which is \<open>smod\<close> on the signed value of the counter.
\<close>

definition worker_step :: "bool \<Rightarrow> batch \<Rightarrow> Shared \<Rightarrow> bool \<times> Shared" where
  "worker_step ok batch s =
     (let s1 = s\<lparr>written := written s @ [(batch, ok)]\<rparr> in
      if \<not> ok then (False, s1\<lparr>logged := logged s1 @ [WriteError]\<rparr>)
      else
        (let s2 = s1\<lparr>recordCount := recordCount s1 + of_nat (length batch)\<rparr>;
             s3 = s2\<lparr>batchCount := batchCount s2 + 1\<rparr>
         in (True, if sint (batchCount s3) smod 100 = 0
                   then s3\<lparr>logged := logged s3 @ [Progress (batchCount s3)]\<rparr>
                   else s3)))"

text \<open>
  The workers run concurrently.  What is embedded is the sequence of their
  receive-and-write steps in the order in which the batches leave the channel, each step
  taken as a whole: \<open>pool w Write i queue s\<close> runs \<open>w\<close> workers on the batches \<open>queue\<close>, of
  which the first is the \<open>i\<close>-th batch sent, and \<open>Write i batch\<close> says whether the sink
  accepts that batch.  A worker whose write fails is gone, so the batches after the
  \<open>w\<close>-th failure stay in the channel; they are the second component of the result.
\<close>

fun pool ::
  "nat \<Rightarrow> (nat \<Rightarrow> batch \<Rightarrow> bool) \<Rightarrow> nat \<Rightarrow> batch list \<Rightarrow> Shared \<Rightarrow> Shared \<times> batch list" where
  "pool 0 Write i queue s = (s, queue)"
| "pool (Suc w) Write i [] s = (s, [])"
| "pool (Suc w) Write i (batch # queue) s =
     (case worker_step (Write i batch) batch s of
        (True, s') \<Rightarrow> pool (Suc w) Write (Suc i) queue s'
      | (False, s') \<Rightarrow> pool w Write (Suc i) queue s')"

subsection \<open>The run\<close>

text \<open>
  \<^verbatim>\<open>importLocal\<close> on the records of the input: the converter is made from the two field
  lists, \<^verbatim>\<open>wg.Add\<close> panics on a negative worker count, and the run completes when the
  channel is closed and the workers have returned.  The channel buffers 128 batches, so the
  ingestion loop blocks for good when more than 128 batches are never received.  When the
  process ends by \<^verbatim>\<open>logger.Fatal\<close> or a panic, what the workers had done by then is not
  determined and is not part of the result.  Opening the input and creating the batch
  writer are outside this development.
\<close>

datatype run = FatalExit string | PanicExit | Blocked | Completed Shared

definition importLocal ::
  "string list list \<Rightarrow> string list \<Rightarrow> string list \<Rightarrow> int \<Rightarrow> (nat \<Rightarrow> batch \<Rightarrow> bool) \<Rightarrow> run" where
  "importLocal records numericFields booleanFields concurrency Write =
     (let cf = AddBoolKeys booleanFields (AddNumberKeys numericFields NewConfiguration) in
      case NewConverter (NewReader records) (Some cf) of
        (reader, Some err) \<Rightarrow> FatalExit ''failed to create CSV reader''
      | (reader, None) \<Rightarrow>
          if concurrency < 0 then PanicExit
          else
            (case produce reader of
               (queue, e) \<Rightarrow>
                 (case pool (nat concurrency) Write 0 queue startShared of
                    (s, left) \<Rightarrow>
                      if length left > 128 then Blocked
                      else (case e of
                              Closed \<Rightarrow> Completed s
                            | FatalRead err \<Rightarrow> FatalExit ''failed to read batch from input''
                            | Panicked \<Rightarrow> PanicExit))))"

section \<open>Remote import (package main, \<^verbatim>\<open>importRemote\<close>)\<close>

text \<open>
  \<^verbatim>\<open>importRemote\<close> from the label \<^verbatim>\<open>waitForOutput\<close> on.  The steps before it (the session,
  the search for the state machine, the start of the execution) end the process when they
  fail and otherwise only fix the execution that is polled.  \<open>DescribeExecution i\<close> is the
  answer to the \<open>i\<close>-th status request: an error, or the status and output of the
  execution.  The loop has no bound, so it is a partial function: \<open>None\<close> is the loop that
  never ends.  The result carries the log entries and the sleeps (in seconds) in order.
  The JSON decoder is the parameter \<open>Unmarshal\<close>.
\<close>

definition ExecutionStatusRunning :: string where
  "ExecutionStatusRunning = ''RUNNING''"

definition ExecutionStatusSucceeded :: string where
  "ExecutionStatusSucceeded = ''SUCCEEDED''"

record DescribeExecutionOutput =
  Status :: string
  Output :: string

datatype remoteLog = Info string | Sleep nat

partial_function (option) waitForOutput ::
  "(nat \<Rightarrow> string + DescribeExecutionOutput) \<Rightarrow> nat \<Rightarrow> remoteLog list \<Rightarrow>
   (remoteLog list \<times> (string + string)) option" where
  "waitForOutput DescribeExecution i lg =
     (case DescribeExecution i of
        Inl err \<Rightarrow> Some (lg, Inl ''failed to get execution status'')
      | Inr deo \<Rightarrow>
          if Status deo = ExecutionStatusRunning
          then waitForOutput DescribeExecution (Suc i) (lg @ [Info ''execution running'', Sleep 5])
          else if Status deo = ExecutionStatusSucceeded
          then Some (lg @ [Info ''execution succeeded''], Inr (Output deo))
          else Some (lg, Inl ''unexpected execution status''))"

record sfnResponse =
  ProcessedCount :: "64 word"
  DurationMS :: "64 word"

datatype remoteRun = Fatal string | Complete "64 word"

definition importRemote ::
  "(string \<Rightarrow> string + sfnResponse list) \<Rightarrow> (nat \<Rightarrow> string + DescribeExecutionOutput) \<Rightarrow>
   (remoteLog list \<times> remoteRun) option" where
  "importRemote Unmarshal DescribeExecution =
     (case waitForOutput DescribeExecution 0 [] of
        None \<Rightarrow> None
      | Some (lg, Inl msg) \<Rightarrow> Some (lg, Fatal msg)
      | Some (lg, Inr outputPayload) \<Rightarrow>
          (case Unmarshal outputPayload of
             Inl err \<Rightarrow> Some (lg, Fatal ''failed to unmarshal output'')
           | Inr output \<Rightarrow>
               Some (lg, Complete (fold (\<lambda>op lines. lines + ProcessedCount op) output 0))))"

section \<open>Notions used to state the properties\<close>

text \<open>
  \<open>uniformRows n c\<close>: every record still to come has \<open>n\<close> fields, the reader expects \<open>n\<close>
  fields or has not fixed its expectation yet, and there are at most \<open>n\<close> column names;
  on such input every \<^verbatim>\<open>Read\<close> yields an item.
  \<open>headerArity c\<close>: the reader expects as many fields as there are column names, which is
  the state in which \<^verbatim>\<open>init\<close> leaves a converter that took its column names from the header.
\<close>

definition uniformRows :: "nat \<Rightarrow> Converter \<Rightarrow> bool" where
  "uniformRows n c \<longleftrightarrow>
     (FieldsPerRecord (r c) = 0 \<or> FieldsPerRecord (r c) = int n) \<and>
     length (columnNames c) \<le> n \<and>
     (\<forall>record \<in> set (pending (r c)). length record = n)"

definition headerArity :: "Converter \<Rightarrow> bool" where
  "headerArity c \<longleftrightarrow>
     columnNames c \<noteq> [] \<and> FieldsPerRecord (r c) = int (length (columnNames c))"

text \<open>
  \<open>converted c it row\<close>: \<open>it\<close> is the item that the loop of \<^verbatim>\<open>Read\<close> builds from the
  record \<open>row\<close>, which is the item \<^verbatim>\<open>Read\<close> returns when it reads that record.
\<close>

definition converted :: "Converter \<Rightarrow> item option \<Rightarrow> string list \<Rightarrow> bool" where
  "converted c it row \<longleftrightarrow>
     (case it of
        None \<Rightarrow> False
      | Some m \<Rightarrow> Read_loop c row 0 (columnNames c) Map.empty = Inr m)"

text \<open>
  \<open>successful s\<close>: the batches the sink has accepted so far; \<open>progressLogged s\<close>: the counter
  values of the progress entries in the log; \<open>counted s\<close>: the counters and the progress
  entries are what the accepted batches account for, the batch counter being one ahead.
\<close>

definition successful :: "Shared \<Rightarrow> batch list" where
  "successful s = map fst (filter snd (written s))"

definition progressLogged :: "Shared \<Rightarrow> 64 word list" where
  "progressLogged s =
     concat (map (\<lambda>e. case e of Progress bc \<Rightarrow> [bc] | WriteError \<Rightarrow> []) (logged s))"

definition counted :: "Shared \<Rightarrow> bool" where
  "counted s \<longleftrightarrow>
     batchCount s = 1 + of_nat (length (successful s)) \<and>
     recordCount s = of_nat (sum_list (map length (successful s))) \<and>
     progressLogged s =
       filter (\<lambda>bc. sint bc smod 100 = 0) (map of_nat [2..<length (successful s) + 2])"

text \<open>\<open>running D i\<close>: the \<open>i\<close>-th status request is answered with the status \<^verbatim>\<open>RUNNING\<close>.\<close>

definition running :: "(nat \<Rightarrow> string + DescribeExecutionOutput) \<Rightarrow> nat \<Rightarrow> bool" where
  "running DescribeExecution i \<longleftrightarrow>
     (case DescribeExecution i of
        Inl err \<Rightarrow> False
      | Inr deo \<Rightarrow> Status deo = ExecutionStatusRunning)"

section \<open>Conversion rules registered for columns\<close>

lemma fold_register_other:
  "key \<notin> set keys \<Longrightarrow> fold (\<lambda>k m. m(k \<mapsto> f)) keys m key = m key"
  by (induction keys arbitrary: m) auto

lemma fold_register:
  "key \<in> set keys \<Longrightarrow> fold (\<lambda>k m. m(k \<mapsto> f)) keys m key = Some f"
proof (induction keys arbitrary: m)
  case Nil
  then show ?case by simp
next
  case (Cons k keys)
  have step: "fold (\<lambda>k m. m(k \<mapsto> f)) (k # keys) m key =
      fold (\<lambda>k m. m(k \<mapsto> f)) keys (m(k \<mapsto> f)) key"
    by (simp only: fold_simps)
  show ?case
  proof (cases "key \<in> set keys")
    case True
    from Cons.IH [OF True, of "m(k \<mapsto> f)"] step show ?thesis by (simp only:)
  next
    case False
    with Cons.prems have "key = k" by simp
    have "fold (\<lambda>k m. m(k \<mapsto> f)) keys (m(k \<mapsto> f)) key = (m(k \<mapsto> f)) key"
      by (rule fold_register_other [OF False])
    also have "\<dots> = Some f" using \<open>key = k\<close> by simp
    finally show ?thesis using step by (simp only:)
  qed
qed

lemma dynamoValue_AddBoolKeys:
  "key \<in> set keys \<Longrightarrow> dynamoValue (c\<lparr>conf := AddBoolKeys keys cf\<rparr>) key s = boolValue s"
  by (simp add: dynamoValue_def AddBoolKeys_def fold_register)

lemma dynamoValue_AddBinKeys:
  "key \<in> set keys \<Longrightarrow> dynamoValue (c\<lparr>conf := AddBinKeys keys cf\<rparr>) key s = binValue s"
  by (simp add: dynamoValue_def AddBinKeys_def fold_register)

section \<open>Boolean columns\<close>

lemma boolValue_cases:
  "boolValue s = (if s = ''true'' \<or> s = ''TRUE'' then SetBOOL True else SetBOOL False)"
  by (simp add: boolValue_def boolValues_def trueValue_def falseValue_def)

text \<open>
  C1, as stated: every casing of "true" converts to the boolean true.  The table
  \<^verbatim>\<open>boolValues\<close> has the four keys \<^verbatim>\<open>false\<close>, \<^verbatim>\<open>FALSE\<close>, \<^verbatim>\<open>true\<close>, \<^verbatim>\<open>TRUE\<close> and the lookup
  is exact, so the mixed casing \<^verbatim>\<open>True\<close> falls through to the default and converts to false.
\<close>

theorem boolValue_mixed_case_counterexample:
  "boolValue ''True'' = SetBOOL False"
  by (simp add: boolValue_def boolValues_def falseValue_def)

text \<open>
  C1, amended: \<^verbatim>\<open>boolValue\<close> converts exactly the two texts \<^verbatim>\<open>true\<close> and \<^verbatim>\<open>TRUE\<close> to the
  boolean true; every other text (\<^verbatim>\<open>false\<close>, \<^verbatim>\<open>FALSE\<close>, mixed casings such as \<^verbatim>\<open>True\<close>,
  and unrelated text such as \<^verbatim>\<open>yes\<close>) converts to the boolean false.  This is the
  conversion \<^verbatim>\<open>dynamoValue\<close> applies to every column registered by \<^verbatim>\<open>AddBoolKeys\<close>.
\<close>

theorem boolValue_exact_table:
  "boolValue s = SetBOOL (s = ''true'' \<or> s = ''TRUE'') \<and>
   (key \<in> set keys \<longrightarrow>
      dynamoValue (c\<lparr>conf := AddBoolKeys keys cf\<rparr>) key s =
        SetBOOL (s = ''true'' \<or> s = ''TRUE''))"
  by (simp add: boolValue_cases dynamoValue_AddBoolKeys)

theorem boolValue_exact_table_witness:
  "boolValue ''TRUE'' = SetBOOL True \<and> boolValue ''yes'' = SetBOOL False \<and>
   dynamoValue \<lparr>r = NewReader [], conf = AddBoolKeys [''a'', ''b''] NewConfiguration,
                columnNames = [''a'', ''b''], columnNamesToInclude = []\<rparr> ''a'' ''true'' =
     SetBOOL True \<and>
   dynamoValue \<lparr>r = NewReader [], conf = AddBoolKeys [''a'', ''b''] NewConfiguration,
                columnNames = [''a'', ''b''], columnNamesToInclude = []\<rparr> ''a'' ''tRuE'' =
     SetBOOL False"
proof -
  let ?c = "\<lparr>r = NewReader [], conf = NewConfiguration,
             columnNames = [''a'', ''b''], columnNamesToInclude = []\<rparr>"
  have k: "''a'' \<in> set [''a'', ''b'']" by simp
  have c: "?c\<lparr>conf := AddBoolKeys [''a'', ''b''] NewConfiguration\<rparr> =
      \<lparr>r = NewReader [], conf = AddBoolKeys [''a'', ''b''] NewConfiguration,
                columnNames = [''a'', ''b''], columnNamesToInclude = []\<rparr>"
    by simp
  from boolValue_exact_table [of "''TRUE''"] boolValue_exact_table [of "''yes''"]
    boolValue_exact_table [where s = "''true''" and key = "''a''" and keys = "[''a'', ''b'']"
      and c = ?c and cf = NewConfiguration]
    boolValue_exact_table [where s = "''tRuE''" and key = "''a''" and keys = "[''a'', ''b'']"
      and c = ?c and cf = NewConfiguration] k
  show ?thesis unfolding c by simp
qed

section \<open>Delimiter selection\<close>

text \<open>
  C6, as stated: every input other than \<^verbatim>\<open>tab\<close> and \<^verbatim>\<open>comma\<close> selects the comma.  The first
  test of \<^verbatim>\<open>delimiter\<close> passes a one-character flag holding the tab character through
  unchanged, so that input selects the tab.
\<close>

theorem delimiter_literal_tab_counterexample:
  "[tab] \<noteq> ''tab'' \<and> [tab] \<noteq> ''comma'' \<and> delimiter [tab] = tab \<and> delimiter [tab] \<noteq> comma"
  by (simp add: delimiter_def tab_def comma_def)

text \<open>
  C6, amended: \<^verbatim>\<open>delimiter\<close> selects the tab character for the name \<^verbatim>\<open>tab\<close> and for the
  one-character text that is the tab character itself, and the comma for every other
  input, the name \<^verbatim>\<open>comma\<close> included.
\<close>

theorem delimiter_selection:
  "delimiter s = (if s = ''tab'' \<or> s = [tab] then tab else comma)"
  by (auto simp add: delimiter_def tab_def comma_def)

section \<open>Binary columns\<close>

lemma decodeQuantum_full:
  assumes "decodeMap a \<noteq> 0xff" "decodeMap b \<noteq> 0xff" "decodeMap c \<noteq> 0xff" "decodeMap d \<noteq> 0xff"
  shows "decodeQuantum 0 [] (a # b # c # d # s) =
    (s, quantumBytes [decodeMap a, decodeMap b, decodeMap c, decodeMap d] 4, False)"
  using assms by simp

lemma length_quantumBytes4: "length (quantumBytes [w, x, y, z] 4) = 3"
  by (simp add: quantumBytes_def Let_def)

lemma Decode_full:
  assumes "decodeMap a \<noteq> 0xff" "decodeMap b \<noteq> 0xff" "decodeMap c \<noteq> 0xff" "decodeMap d \<noteq> 0xff"
  shows "Decode (a # b # c # d # s) =
    (quantumBytes [decodeMap a, decodeMap b, decodeMap c, decodeMap d] 4 @ fst (Decode s),
     snd (Decode s))"
  by (subst Decode.simps)
    (simp add: decodeQuantum_full [OF assms] split: prod.splits del: decodeQuantum.simps)

lemma Decode_corrupt_head:
  assumes "decodeMap c = 0xff" "\<not> isNewline c"
  shows "Decode (c # s) = ([], True)"
  using assms by (subst Decode.simps) simp

lemma Decode_quanta_then_corrupt:
  assumes "length p = 4 * k" "\<forall>ch \<in> set p. decodeMap ch \<noteq> 0xff"
    "decodeMap c = 0xff" "\<not> isNewline c"
  shows "Decode (p @ c # s) = (fst (Decode p), True) \<and> \<not> snd (Decode p) \<and>
    length (fst (Decode p)) = 3 * k"
  using assms(1,2)
proof (induction k arbitrary: p)
  case 0
  then show ?case
    using Decode_corrupt_head [OF assms(3,4)] by (simp add: Decode.simps)
next
  case (Suc k)
  then obtain a b c' d p' where p: "p = a # b # c' # d # p'" and l: "length p' = 4 * k"
    by (auto simp: length_Suc_conv numeral_eq_Suc)
  have v: "decodeMap a \<noteq> 0xff" "decodeMap b \<noteq> 0xff" "decodeMap c' \<noteq> 0xff"
      "decodeMap d \<noteq> 0xff"
    and v': "\<forall>ch \<in> set p'. decodeMap ch \<noteq> 0xff"
    using Suc.prems(2) by (simp_all add: p)
  from Suc.IH [OF l v'] show ?case
    by (simp add: p Decode_full [OF v] length_quantumBytes4)
qed

text \<open>
  C2, as stated: every text that is not valid base64 converts to zero-length bytes.
  The text \<^verbatim>\<open>AAAA!\<close> is not valid base64 (the decoder reports corrupt input at \<^verbatim>\<open>!\<close>), and
  \<^verbatim>\<open>binValue\<close> stores the three bytes decoded from \<^verbatim>\<open>AAAA\<close> before that position.
\<close>

theorem binValue_corrupt_tail_counterexample:
  "snd (DecodeString ''AAAA!'') \<and> binValue ''AAAA!'' = SetB [0, 0, 0] \<and>
   binValue ''AAAA!'' \<noteq> SetB []"
  by (simp add: binValue_def DecodeString_def Decode.simps decodeMap_def encodeStd_def
      quantumBytes_def padChar_def isNewline_def)

text \<open>
  C2, amended: \<^verbatim>\<open>binValue\<close> base64-decodes the text and never raises an error; its result
  is always a binary value.  For \<^verbatim>\<open>F9vBa7O+Ee6/7gJCrGMAFA==\<close> the value is the 16 decoded
  bytes.  For a text that is not valid base64 the value is what the decoder had written
  before the corrupt position: when the text is \<open>k\<close> complete groups of four alphabet
  characters followed by a character that is neither of the alphabet nor a line break, the
  decoder reports corrupt input and the value is the \<open>3 * k\<close> bytes decoded from those groups,
  which is empty only for \<open>k = 0\<close>.  This is the conversion \<^verbatim>\<open>dynamoValue\<close> applies to every
  column registered by \<^verbatim>\<open>AddBinKeys\<close>.
\<close>

theorem binValue_keeps_decoded_quanta:
  assumes "length p = 4 * k" and "\<forall>ch \<in> set p. decodeMap ch \<noteq> 0xff"
    and "decodeMap c = 0xff" and "\<not> isNewline c"
  shows "snd (DecodeString (p @ c # s)) \<and>
    (\<exists>b. binValue (p @ c # s) = SetB b \<and> binValue p = SetB b \<and> length b = 3 * k) \<and>
    binValue ''F9vBa7O+Ee6/7gJCrGMAFA=='' =
      SetB [23, 219, 193, 107, 179, 190, 17, 238, 191, 238, 2, 66, 172, 99, 0, 20] \<and>
    (key \<in> set keys \<longrightarrow>
       dynamoValue (cv\<lparr>conf := AddBinKeys keys cf\<rparr>) key (p @ c # s) = binValue (p @ c # s))"
proof -
  have valid: "binValue ''F9vBa7O+Ee6/7gJCrGMAFA=='' =
      SetB [23, 219, 193, 107, 179, 190, 17, 238, 191, 238, 2, 66, 172, 99, 0, 20]"
    by (simp add: binValue_def DecodeString_def Decode.simps decodeMap_def encodeStd_def
        quantumBytes_def padChar_def isNewline_def)
  from Decode_quanta_then_corrupt [OF assms, of s]
  have "snd (DecodeString (p @ c # s))"
    and "\<exists>b. binValue (p @ c # s) = SetB b \<and> binValue p = SetB b \<and> length b = 3 * k"
    by (simp_all add: binValue_def DecodeString_def split: prod.splits)
  with valid dynamoValue_AddBinKeys [where key = key and keys = keys and c = cv and cf = cf
      and s = "p @ c # s"] show ?thesis by blast
qed

theorem binValue_keeps_decoded_quanta_witness:
  "snd (DecodeString ''AAAA!'') \<and>
   (\<exists>b. binValue ''AAAA!'' = SetB b \<and> binValue ''AAAA'' = SetB b \<and> length b = 3) \<and>
   binValue ''F9vBa7O+Ee6/7gJCrGMAFA=='' =
      SetB [23, 219, 193, 107, 179, 190, 17, 238, 191, 238, 2, 66, 172, 99, 0, 20] \<and>
   dynamoValue \<lparr>r = NewReader [], conf = AddBinKeys [''two''] NewConfiguration,
                columnNames = [''one'', ''two''], columnNamesToInclude = []\<rparr> ''two'' ''AAAA!'' =
     binValue ''AAAA!''"
proof -
  let ?cv = "\<lparr>r = NewReader [], conf = NewConfiguration,
              columnNames = [''one'', ''two''], columnNamesToInclude = []\<rparr>"
  have k: "''two'' \<in> set [''two'']" by simp
  have cv: "?cv\<lparr>conf := AddBinKeys [''two''] NewConfiguration\<rparr> =
      \<lparr>r = NewReader [], conf = AddBinKeys [''two''] NewConfiguration,
        columnNames = [''one'', ''two''], columnNamesToInclude = []\<rparr>"
    by simp
  have h1: "length ''AAAA'' = 4 * 1" by simp
  have h2: "\<forall>ch \<in> set ''AAAA''. decodeMap ch \<noteq> 0xff"
    by (simp add: decodeMap_def encodeStd_def)
  have h3: "decodeMap CHR ''!'' = 0xff" by (simp add: decodeMap_def encodeStd_def)
  have h4: "\<not> isNewline CHR ''!''" by (simp add: isNewline_def)
  show ?thesis
    using binValue_keeps_decoded_quanta [OF h1 h2 h3 h4, where s = "[]" and key = "''two''"
        and keys = "[''two'']" and cv = ?cv and cf = NewConfiguration] k
    unfolding cv by simp
qed

section \<open>Reading rows and batches\<close>

lemma Read_eof: "pending (r c) = [] \<Longrightarrow> Read c = Inr ((None, Some EOF), c)"
  by (simp add: Read_def Reader_Read_def)

lemma Read_loop_panics_iff:
  "Read_loop c record i cols items = Inl IndexOutOfRange \<longleftrightarrow>
   (\<exists>j<length cols. length record \<le> i + j \<and> \<not> skipped c (cols ! j))"
proof (induction cols arbitrary: i items)
  case Nil
  then show ?case by simp
next
  case (Cons column cols)
  show ?case
    by (simp add: Cons.IH Ex_less_Suc2)
qed

lemma Read_loop_total:
  "i + length cols \<le> length record \<Longrightarrow> \<exists>m. Read_loop c record i cols items = Inr m"
proof -
  assume a: "i + length cols \<le> length record"
  have "Read_loop c record i cols items \<noteq> Inl IndexOutOfRange"
    using a by (auto simp: Read_loop_panics_iff)
  then show ?thesis
    by (cases "Read_loop c record i cols items") (auto intro: panic.exhaust)
qed

lemma Read_loop_stored:
  "Read_loop c record i cols items = Inr m \<Longrightarrow> m k = Some v \<Longrightarrow>
   items k = Some v \<or>
   (\<exists>j<length cols. cols ! j = k \<and> i + j < length record \<and> record ! (i + j) \<noteq> [] \<and>
      v = dynamoValue c k (record ! (i + j)))"
proof (induction cols arbitrary: i items)
  case Nil
  then show ?case by simp
next
  case (Cons column cols)
  from Cons.prems show ?case
    apply (simp add: Ex_less_Suc2 split: if_splits)
      apply (drule (1) Cons.IH; auto split: if_splits)+
    done
qed


lemma Read_uniform:
  assumes "uniformRows n c" "pending (r c) = row # rest"
  shows "\<exists>m c'. Read c = Inr ((Some m, None), c') \<and> pending (r c') = rest \<and> uniformRows n c'
     \<and> Read_loop c row 0 (columnNames c) Map.empty = Inr m"
proof -
  have len: "length row = n" and cn: "length (columnNames c) \<le> n"
    using assms by (auto simp: uniformRows_def)
  obtain m where m: "Read_loop c row 0 (columnNames c) Map.empty = Inr m"
    using Read_loop_total [of 0 "columnNames c" row c Map.empty] len cn by auto
  have fpr: "FieldsPerRecord (r c) = 0 \<or> FieldsPerRecord (r c) = int n"
    and rows: "\<forall>x \<in> set rest. length x = n"
    using assms by (auto simp: uniformRows_def)
  show ?thesis
    using fpr rows cn m len assms(2)
    by (auto simp: Read_def Reader_Read_def uniformRows_def)
qed


lemma ReadBatch_loop_done:
  "ReadBatch_loop B c items B = Inr ((take B items, B, None), c)"
  by (subst ReadBatch_loop.simps) simp

lemma ReadBatch_loop_eof:
  "read < B \<Longrightarrow> pending (r c) = [] \<Longrightarrow>
   ReadBatch_loop B c items read = Inr ((take read (items[read := None]), read, Some EOF), c)"
  by (subst ReadBatch_loop.simps) (simp add: Read_eof)

lemma ReadBatch_loop_step:
  "read < B \<Longrightarrow> Read c = Inr ((Some m, None), c') \<Longrightarrow>
   ReadBatch_loop B c items read = ReadBatch_loop B c' (items[read := Some m]) (Suc read)"
  by (subst ReadBatch_loop.simps) simp

lemma ReadBatch_loop_uniform:
  assumes "uniformRows n c" "read \<le> B"
  shows "(B - read \<le> length (pending (r c)) \<longrightarrow>
           (\<exists>its c'. ReadBatch_loop B c items read = Inr ((its, B, None), c') \<and>
              pending (r c') = drop (B - read) (pending (r c)) \<and> uniformRows n c')) \<and>
         (length (pending (r c)) < B - read \<longrightarrow>
           (\<exists>its c'. ReadBatch_loop B c items read =
                Inr ((its, read + length (pending (r c)), Some EOF), c') \<and>
              pending (r c') = [] \<and> uniformRows n c'))"
  using assms
proof (induction d \<equiv> "B - read" arbitrary: c items read)
  case 0
  then have "read = B" by simp
  then show ?case using "0.prems"(1) by (simp add: ReadBatch_loop_done)
next
  case (Suc d)
  then have lt: "read < B" and d: "d = B - Suc read" and le: "Suc read \<le> B" by auto
  show ?case
  proof (cases "pending (r c)")
    case Nil
    then show ?thesis
      using lt Suc.prems(1) by (simp add: ReadBatch_loop_eof)
  next
    case (Cons row rest)
    from Read_uniform [OF Suc.prems(1) Cons]
    obtain m c' where rd: "Read c = Inr ((Some m, None), c')" and p: "pending (r c') = rest"
      and u: "uniformRows n c'" by blast
    note step = ReadBatch_loop_step [OF lt rd, of items]
    have eq1: "B - read = Suc (B - Suc read)" using lt by simp
    from Suc.hyps(1) [OF d u le, of "items[read := Some m]"] show ?thesis
      unfolding step p Cons eq1 by simp
  qed
qed

lemma ReadBatch_loop_count:
  "ReadBatch_loop B c items read = Inr ((its, k, e), c') \<Longrightarrow> read \<le> B \<Longrightarrow> length items = B \<Longrightarrow>
   k \<le> B \<and> length its = k"
proof (induction B c items read rule: ReadBatch_loop.induct)
  case (1 batchSize c items read)
  show ?case
  proof (cases "read < batchSize")
    case False
    with "1.prems" show ?thesis by (simp add: ReadBatch_loop.simps)
  next
    case True
    show ?thesis
    proof (cases "Read c")
      case (Inl p)
      with True "1.prems" show ?thesis by (simp add: ReadBatch_loop.simps)
    next
      case (Inr res)
      obtain it err c1 where res: "res = ((it, err), c1)" by (metis prod.exhaust)
      show ?thesis
      proof (cases "err = None")
        case False
        with True Inr res "1.prems" show ?thesis
          by (subst (asm) ReadBatch_loop.simps) auto
      next
        case e: True
        have "ReadBatch_loop batchSize c1 (items[read := it]) (Suc read) = Inr ((its, k, e), c')"
          using "1.prems"(1) True Inr res e by (subst (asm) ReadBatch_loop.simps) simp
        from "1.IH" [OF True Inr res [symmetric] refl _ this] e True "1.prems"
        show ?thesis by simp
      qed
    qed
  qed
qed

lemma ReadBatch_full:
  assumes "uniformRows n c" "25 \<le> length (pending (r c))"
  shows "\<exists>its c'. ReadBatch c = Inr ((its, 25, None), c') \<and> length its = 25 \<and>
          pending (r c') = drop 25 (pending (r c)) \<and> uniformRows n c'"
proof -
  from ReadBatch_loop_uniform [OF assms(1), of 0 25 "replicate 25 None"] assms(2)
  obtain its c' where eq: "ReadBatch c = Inr ((its, 25, None), c')"
    and rest: "pending (r c') = drop 25 (pending (r c))" "uniformRows n c'"
    by (auto simp: ReadBatch_def)
  from ReadBatch_loop_count [OF eq [unfolded ReadBatch_def]] have "length its = 25" by simp
  with eq rest show ?thesis by blast
qed

lemma ReadBatch_partial:
  assumes "uniformRows n c" "length (pending (r c)) < 25"
  shows "\<exists>its c'. ReadBatch c = Inr ((its, length (pending (r c)), Some EOF), c') \<and>
          length its = length (pending (r c)) \<and> pending (r c') = []"
proof -
  from ReadBatch_loop_uniform [OF assms(1), of 0 25 "replicate 25 None"] assms(2)
  obtain its c' where eq: "ReadBatch c = Inr ((its, length (pending (r c)), Some EOF), c')"
    and rest: "pending (r c') = []"
    by (auto simp: ReadBatch_def)
  from ReadBatch_loop_count [OF eq [unfolded ReadBatch_def]]
  have "length its = length (pending (r c))" by simp
  with eq rest show ?thesis by blast
qed

lemma ReadBatch_exhausted:
  "pending (r c) = [] \<Longrightarrow> ReadBatch c = Inr (([], 0, Some EOF), c)"
  by (simp add: ReadBatch_def ReadBatch_loop_eof)

lemma skipped_r_update: "skipped (c\<lparr>r := rd\<rparr>) column = skipped c column"
  by (simp add: skipped_def)

lemma dynamoValue_r_update: "dynamoValue (c\<lparr>r := rd\<rparr>) key val = dynamoValue c key val"
  by (simp add: dynamoValue_def)

lemma Read_loop_r_update:
  "Read_loop (c\<lparr>r := rd\<rparr>) row i cols items = Read_loop c row i cols items"
  by (induction cols arbitrary: i items) (simp_all add: skipped_r_update dynamoValue_r_update)

lemma converted_r_update: "converted (c\<lparr>r := rd\<rparr>) = converted c"
  by (intro ext) (simp add: converted_def Read_loop_r_update split: option.splits)

lemma Read_converts:
  assumes "Read c = Inr ((it, None), c1)"
  shows "\<exists>row rest. pending (r c) = row # rest \<and> pending (r c1) = rest \<and>
     converted c it row \<and> converted c1 = converted c"
proof (cases "pending (r c)")
  case Nil
  with assms show ?thesis by (simp add: Read_eof)
next
  case (Cons row rest)
  obtain row' e rd where rr0: "Reader_Read (r c) = ((row', e), rd)"
    by (metis prod.exhaust)
  with Cons have "row' = row" and rd: "pending rd = rest"
    by (auto simp: Reader_Read_def split: if_splits)
  with rr0 have rr: "Reader_Read (r c) = ((row, e), rd)" by simp
  from assms rr have e: "e = None" and c1: "c1 = c\<lparr>r := rd\<rparr>"
    and m: "\<exists>m. it = Some m \<and> Read_loop c row 0 (columnNames c) Map.empty = Inr m"
    by (auto simp: Read_def split: option.splits sum.splits)
  from m have "converted c it row" by (auto simp: converted_def)
  with Cons rd c1 show ?thesis by (simp add: converted_r_update)
qed

lemma ReadBatch_loop_items:
  "ReadBatch_loop B c items read = Inr ((its, k, e), c') \<Longrightarrow> read \<le> B \<Longrightarrow> length items = B \<Longrightarrow>
   read \<le> k \<and> take read its = take read items \<and>
   list_all2 (converted c) (drop read its) (take (k - read) (pending (r c)))"
proof (induction B c items read rule: ReadBatch_loop.induct)
  case (1 batchSize c items read)
  note len = ReadBatch_loop_count [OF "1.prems"]
  show ?case
  proof (cases "read < batchSize")
    case False
    with "1.prems" show ?thesis by (simp add: ReadBatch_loop.simps)
  next
    case True
    show ?thesis
    proof (cases "Read c")
      case (Inl p)
      with True "1.prems" show ?thesis by (simp add: ReadBatch_loop.simps)
    next
      case (Inr res)
      obtain it err c1 where res: "res = ((it, err), c1)" by (metis prod.exhaust)
      show ?thesis
      proof (cases "err = None")
        case False
        with True Inr res "1.prems" show ?thesis
          by (subst (asm) ReadBatch_loop.simps) auto
      next
        case en: True
        have rec: "ReadBatch_loop batchSize c1 (items[read := it]) (Suc read) = Inr ((its, k, e), c')"
          using "1.prems"(1) True Inr res en by (subst (asm) ReadBatch_loop.simps) simp
        from "1.IH" [OF True Inr res [symmetric] refl _ rec] en True "1.prems"
        have k: "Suc read \<le> k"
          and tk: "take (Suc read) its = take (Suc read) (items[read := it])"
          and la: "list_all2 (converted c1) (drop (Suc read) its)
                     (take (k - Suc read) (pending (r c1)))"
          by simp_all
        from Read_converts [OF Inr [unfolded res en]]
        obtain row rest where p: "pending (r c) = row # rest" and p1: "pending (r c1) = rest"
          and cv: "converted c it row" and same: "converted c1 = converted c"
          by blast
        have rl: "read < length its" using len k by simp
        have "its ! read = take (Suc read) its ! read" by simp
        also have "\<dots> = (items[read := it]) ! read" unfolding tk by simp
        also have "\<dots> = it" using True "1.prems"(3) by simp
        finally have nth: "its ! read = it" .
        have d: "drop read its = it # drop (Suc read) its"
          using Cons_nth_drop_Suc [OF rl] nth by simp
        have "k - read = Suc (k - Suc read)" using k by simp
        then have t: "take (k - read) (pending (r c)) = row # take (k - Suc read) rest"
          by (simp add: p)
        have "take read its = take read (take (Suc read) its)" by simp
        also have "\<dots> = take read (items[read := it])" unfolding tk by simp
        also have "\<dots> = take read items" by simp
        finally have tr: "take read its = take read items" .
        show ?thesis
          using k tr la cv unfolding d t same p1 by simp
      qed
    qed
  qed
qed

lemma ReadBatch_items:
  assumes "ReadBatch c = Inr ((its, k, e), c')"
  shows "k \<le> 25 \<and> length its = k \<and> list_all2 (converted c) its (take k (pending (r c)))"
  using ReadBatch_loop_count [OF assms [unfolded ReadBatch_def]]
    ReadBatch_loop_items [OF assms [unfolded ReadBatch_def]]
  by simp


lemma Read_same_schema:
  "Read c = Inr (res, c1) \<Longrightarrow> converted c1 = converted c"
  by (auto simp: Read_def converted_r_update split: prod.splits option.splits sum.splits)

lemma ReadBatch_loop_same_schema:
  "ReadBatch_loop B c items read = Inr (res, c') \<Longrightarrow> converted c' = converted c"
proof (induction B c items read rule: ReadBatch_loop.induct)
  case (1 batchSize c items read)
  show ?case
  proof (cases "read < batchSize")
    case False
    with "1.prems" show ?thesis by (simp add: ReadBatch_loop.simps)
  next
    case True
    show ?thesis
    proof (cases "Read c")
      case (Inl p)
      with True "1.prems" show ?thesis by (simp add: ReadBatch_loop.simps)
    next
      case (Inr rs)
      obtain it err c1 where rs: "rs = ((it, err), c1)" by (metis prod.exhaust)
      note s1 = Read_same_schema [OF Inr [unfolded rs]]
      show ?thesis
      proof (cases "err = None")
        case False
        with True Inr rs "1.prems" s1 show ?thesis
          by (subst (asm) ReadBatch_loop.simps) auto
      next
        case en: True
        have "ReadBatch_loop batchSize c1 (items[read := it]) (Suc read) = Inr (res, c')"
          using "1.prems"(1) True Inr rs en by (subst (asm) ReadBatch_loop.simps) simp
        from "1.IH" [OF True Inr rs [symmetric] refl _ this] en s1
        show ?thesis by simp
      qed
    qed
  qed
qed

lemma ReadBatch_same_schema:
  "ReadBatch c = Inr (res, c') \<Longrightarrow> converted c' = converted c"
  unfolding ReadBatch_def by (rule ReadBatch_loop_same_schema)

text \<open>
  C3: \<^verbatim>\<open>ReadBatch\<close> returns at most 25 items, as many items as the count it returns, and
  the items are, in order, the items \<^verbatim>\<open>Read\<close> builds from the first records of the input.
  On rows that all convert, it returns 25 items and no error while at least 25 rows are
  left, and otherwise the items of the rows that are left together with \<^verbatim>\<open>io.EOF\<close>: 10
  items with \<^verbatim>\<open>io.EOF\<close> on a 10-row input; on a 30-row input the items of the first 25 rows
  without error at the first call and the items of the last 5 rows with \<^verbatim>\<open>io.EOF\<close> at the
  second.  \<^verbatim>\<open>io.EOF\<close> is the normal end: the ingestion loop sends the batch that came with
  it and closes the channel.
\<close>

theorem ReadBatch_reads_up_to_25:
  "(\<forall>its k e c'. ReadBatch c = Inr ((its, k, e), c') \<longrightarrow>
      k \<le> 25 \<and> length its = k \<and> list_all2 (converted c) its (take k (pending (r c)))) \<and>
   (uniformRows n c \<longrightarrow>
      (25 \<le> length (pending (r c)) \<longrightarrow>
         (\<exists>its c'. ReadBatch c = Inr ((its, 25, None), c') \<and> length its = 25 \<and>
            list_all2 (converted c) its (take 25 (pending (r c))) \<and>
            pending (r c') = drop 25 (pending (r c)) \<and> uniformRows n c')) \<and>
      (length (pending (r c)) < 25 \<longrightarrow>
         (\<exists>its c'. ReadBatch c = Inr ((its, length (pending (r c)), Some EOF), c') \<and>
            length its = length (pending (r c)) \<and>
            list_all2 (converted c) its (pending (r c)) \<and> pending (r c') = [])) \<and>
      (length (pending (r c)) = 10 \<longrightarrow>
         (\<exists>its c'. ReadBatch c = Inr ((its, 10, Some EOF), c') \<and> length its = 10 \<and>
            list_all2 (converted c) its (pending (r c)))) \<and>
      (length (pending (r c)) = 30 \<longrightarrow>
         (\<exists>its1 c1 its2 c2. ReadBatch c = Inr ((its1, 25, None), c1) \<and> length its1 = 25 \<and>
            list_all2 (converted c) its1 (take 25 (pending (r c))) \<and>
            ReadBatch c1 = Inr ((its2, 5, Some EOF), c2) \<and> length its2 = 5 \<and>
            list_all2 (converted c) its2 (drop 25 (pending (r c)))))) \<and>
   (\<forall>its k c'. ReadBatch c = Inr ((its, k, Some EOF), c') \<longrightarrow> produce c = ([its], Closed))"
proof -
  have normal: "produce c = ([its], Closed)"
    if "ReadBatch c = Inr ((its, k, Some EOF), c')" for its k c'
    by (subst produce.simps) (simp add: that)
  have items: "k \<le> 25 \<and> length its = k \<and> list_all2 (converted c) its (take k (pending (r c)))"
    if "ReadBatch c = Inr ((its, k, e), c')" for c its k e c'
    by (rule ReadBatch_items [OF that])
  have full: "\<exists>its c'. ReadBatch c = Inr ((its, 25, None), c') \<and> length its = 25 \<and>
            list_all2 (converted c) its (take 25 (pending (r c))) \<and>
            pending (r c') = drop 25 (pending (r c)) \<and> uniformRows n c'"
    if "uniformRows n c" "25 \<le> length (pending (r c))" for c
  proof -
    from ReadBatch_full [OF that] obtain its c' where
      rb: "ReadBatch c = Inr ((its, 25, None), c')" and
      rest: "length its = 25" "pending (r c') = drop 25 (pending (r c))" "uniformRows n c'"
      by blast
    from items [OF rb] rb rest show ?thesis by blast
  qed
  have part: "\<exists>its c'. ReadBatch c = Inr ((its, length (pending (r c)), Some EOF), c') \<and>
            length its = length (pending (r c)) \<and>
            list_all2 (converted c) its (pending (r c)) \<and> pending (r c') = []"
    if "uniformRows n c" "length (pending (r c)) < 25" for c
  proof -
    from ReadBatch_partial [OF that] obtain its c' where
      rb: "ReadBatch c = Inr ((its, length (pending (r c)), Some EOF), c')" and
      rest: "length its = length (pending (r c))" "pending (r c') = []"
      by blast
    from items [OF rb] have "list_all2 (converted c) its (pending (r c))" by simp
    with rb rest show ?thesis by blast
  qed
  have ten: "\<exists>its c'. ReadBatch c = Inr ((its, 10, Some EOF), c') \<and> length its = 10 \<and>
            list_all2 (converted c) its (pending (r c))"
    if "uniformRows n c" "length (pending (r c)) = 10"
    using part [OF that(1)] that(2) by auto
  have thirty: "\<exists>its1 c1 its2 c2. ReadBatch c = Inr ((its1, 25, None), c1) \<and> length its1 = 25 \<and>
            list_all2 (converted c) its1 (take 25 (pending (r c))) \<and>
            ReadBatch c1 = Inr ((its2, 5, Some EOF), c2) \<and> length its2 = 5 \<and>
            list_all2 (converted c) its2 (drop 25 (pending (r c)))"
    if u: "uniformRows n c" and l: "length (pending (r c)) = 30"
  proof -
    from full [OF u] l obtain its1 c1 where
      b1: "ReadBatch c = Inr ((its1, 25, None), c1)" "length its1 = 25"
        "list_all2 (converted c) its1 (take 25 (pending (r c)))"
      and p1: "pending (r c1) = drop 25 (pending (r c))" and u1: "uniformRows n c1"
      by auto
    have same: "converted c1 = converted c"
      using ReadBatch_same_schema [OF b1(1)] .
    have "length (pending (r c1)) = 5" using p1 l by simp
    with part [OF u1] obtain its2 c2 where
      "ReadBatch c1 = Inr ((its2, 5, Some EOF), c2)" "length its2 = 5"
      "list_all2 (converted c1) its2 (pending (r c1))"
      by auto
    with b1 show ?thesis unfolding same p1 by blast
  qed
  show ?thesis
    using items [of c] full [of c] part [of c] ten thirty normal by blast
qed


theorem ReadBatch_reads_up_to_25_witness:
  "uniformRows 2 (fst (NewConverter (NewReader ([''a'', ''b''] # replicate 30 [''1'', ''2''])) None)) \<and>
   (\<exists>its1 c1 its2 c2.
      ReadBatch (fst (NewConverter (NewReader ([''a'', ''b''] # replicate 30 [''1'', ''2''])) None))
        = Inr ((its1, 25, None), c1) \<and> length its1 = 25 \<and>
      ReadBatch c1 = Inr ((its2, 5, Some EOF), c2) \<and> length its2 = 5) \<and>
   (\<exists>c'. ReadBatch (fst (NewConverter (NewReader [[''a'', ''b''], [''1'', ''2''], [''3'', []]]) None)) =
      Inr (([Some [''a'' \<mapsto> SetS ''1'', ''b'' \<mapsto> SetS ''2''], Some [''a'' \<mapsto> SetS ''3'']],
            2, Some EOF), c'))"
proof -
  let ?c = "fst (NewConverter (NewReader ([''a'', ''b''] # replicate 30 [''1'', ''2''])) None)"
  let ?d = "fst (NewConverter (NewReader [[''a'', ''b''], [''1'', ''2''], [''3'', []]]) None)"
  have u: "uniformRows 2 ?c"
    by (simp add: uniformRows_def NewConverter_def NewReader_def init_def NewConfiguration_def
        Reader_Read_def)
  have l: "length (pending (r ?c)) = 30"
    by (simp add: NewConverter_def NewReader_def init_def NewConfiguration_def Reader_Read_def)
  from ReadBatch_reads_up_to_25 [of ?c 2] l u
  have thirty: "\<exists>its1 c1 its2 c2. ReadBatch ?c = Inr ((its1, 25, None), c1) \<and> length its1 = 25 \<and>
      ReadBatch c1 = Inr ((its2, 5, Some EOF), c2) \<and> length its2 = 5"
    by blast
  have d: "?d = \<lparr>r = \<lparr>pending = [[''1'', ''2''], [''3'', []]], FieldsPerRecord = 2\<rparr>,
      conf = NewConfiguration, columnNames = [''a'', ''b''], columnNamesToInclude = []\<rparr>"
    by (simp add: NewConverter_def NewReader_def init_def Reader_Read_def NewConfiguration_def)
  have ud: "uniformRows 2 ?d" and ld: "length (pending (r ?d)) < 25"
    and pd: "pending (r ?d) = [[''1'', ''2''], [''3'', []]]"
    unfolding d by (simp_all add: uniformRows_def)
  from ReadBatch_reads_up_to_25 [of ?d 2] ud ld
  obtain its c' where rb: "ReadBatch ?d = Inr ((its, length (pending (r ?d)), Some EOF), c')"
    and la: "list_all2 (converted ?d) its (pending (r ?d))"
    by blast
  from la have "its = [Some [''a'' \<mapsto> SetS ''1'', ''b'' \<mapsto> SetS ''2''], Some [''a'' \<mapsto> SetS ''3'']]"
    unfolding pd unfolding d
    by (auto simp: list_all2_Cons2 converted_def skipped_def dynamoValue_def stringValue_def
        NewConfiguration_def split: option.splits)
  with rb have "\<exists>c'. ReadBatch ?d =
      Inr (([Some [''a'' \<mapsto> SetS ''1'', ''b'' \<mapsto> SetS ''2''], Some [''a'' \<mapsto> SetS ''3'']],
            2, Some EOF), c')"
    unfolding pd by auto
  with u thirty show ?thesis by blast
qed

lemma init_from_header:
  assumes "Columns cf = []" "header \<noteq> []"
  shows "\<exists>c0. NewConverter (NewReader (header # rows)) (Some cf) = (c0, None) \<and>
     columnNames c0 = header \<and> pending (r c0) = rows \<and> headerArity c0"
  using assms
  by (simp add: NewConverter_def NewReader_def init_def Reader_Read_def headerArity_def Let_def)

lemma Read_keeps_headerArity:
  assumes "headerArity c" "Read c = Inr (res, c')"
  shows "headerArity c'"
  using assms
  by (auto simp: headerArity_def Read_def Reader_Read_def
      split: list.splits if_splits sum.splits)

lemma Read_mismatch:
  assumes "headerArity c" "pending (r c) = row # rest" "length row \<noteq> length (columnNames c)"
  shows "Read c = Inr ((None, Some ErrFieldCount), c\<lparr>r := (r c)\<lparr>pending := rest\<rparr>\<rparr>)"
  using assms by (auto simp: headerArity_def Read_def Reader_Read_def)

text \<open>
  C4: when the column names come from the header row, \<^verbatim>\<open>init\<close> leaves the reader expecting
  the header's field count, every \<^verbatim>\<open>Read\<close> keeps it so, and in such a state \<^verbatim>\<open>Read\<close> of a row
  with another field count returns \<^verbatim>\<open>ErrFieldCount\<close> and the nil item: no partial item.
\<close>

theorem Read_field_count_mismatch:
  "(Columns cf = [] \<and> header \<noteq> [] \<longrightarrow>
      (\<exists>c0. NewConverter (NewReader (header # rows)) (Some cf) = (c0, None) \<and>
         columnNames c0 = header \<and> pending (r c0) = rows \<and> headerArity c0)) \<and>
   (headerArity c \<and> Read c = Inr (res, c') \<longrightarrow> headerArity c') \<and>
   (headerArity c \<and> pending (r c) = row # rest \<and> length row \<noteq> length (columnNames c) \<longrightarrow>
      Read c = Inr ((None, Some ErrFieldCount), c\<lparr>r := (r c)\<lparr>pending := rest\<rparr>\<rparr>))"
  using init_from_header [of cf header rows] Read_keeps_headerArity [of c res c']
    Read_mismatch [of c row rest]
  by blast

theorem Read_field_count_mismatch_witness:
  "\<exists>c0. NewConverter (NewReader [[''a'', ''b'', ''c''], [''1'', ''2'', ''3'', ''4'']])
          (Some NewConfiguration) = (c0, None) \<and>
     columnNames c0 = [''a'', ''b'', ''c''] \<and> headerArity c0 \<and>
     Read c0 = Inr ((None, Some ErrFieldCount), c0\<lparr>r := (r c0)\<lparr>pending := []\<rparr>\<rparr>) \<and>
     headerArity (c0\<lparr>r := (r c0)\<lparr>pending := []\<rparr>\<rparr>)"
proof -
  have h: "Columns NewConfiguration = [] \<and> [''a'', ''b'', ''c''] \<noteq> []"
    by (simp add: NewConfiguration_def)
  from Read_field_count_mismatch
    [of NewConfiguration "[''a'', ''b'', ''c'']" "[[''1'', ''2'', ''3'', ''4'']]"] h
  obtain c0 where c0: "NewConverter (NewReader [[''a'', ''b'', ''c''], [''1'', ''2'', ''3'', ''4'']])
          (Some NewConfiguration) = (c0, None)"
    "columnNames c0 = [''a'', ''b'', ''c'']" "pending (r c0) = [[''1'', ''2'', ''3'', ''4'']]"
    "headerArity c0"
    by blast
  have m: "length [''1'', ''2'', ''3'', ''4''] \<noteq> length (columnNames c0)"
    by (simp add: c0(2))
  have rd: "Read c0 = Inr ((None, Some ErrFieldCount), c0\<lparr>r := (r c0)\<lparr>pending := []\<rparr>\<rparr>)"
    using Read_field_count_mismatch [of _ _ _ c0 _ _ "[''1'', ''2'', ''3'', ''4'']" "[]"]
      c0(3,4) m by blast
  have "headerArity (c0\<lparr>r := (r c0)\<lparr>pending := []\<rparr>\<rparr>)"
    using Read_field_count_mismatch [of _ _ _ c0 "(None, Some ErrFieldCount)"
        "c0\<lparr>r := (r c0)\<lparr>pending := []\<rparr>\<rparr>"] c0(4) rd by blast
  with c0 rd show ?thesis by blast
qed

lemma Read_item:
  assumes "pending (r c) = row # rest"
    and "FieldsPerRecord (r c) \<le> 0 \<or> FieldsPerRecord (r c) = int (length row)"
  shows "Read c = (case Read_loop c row 0 (columnNames c) Map.empty of
                     Inl p \<Rightarrow> Inl p
                   | Inr m \<Rightarrow> Inr ((Some m, None), c\<lparr>r := snd (Reader_Read (r c))\<rparr>))"
  using assms by (auto simp: Read_def Reader_Read_def split: sum.splits)

text \<open>
  C5, amended: for a row that the reader accepts and that has a field for every column,
  \<^verbatim>\<open>Read\<close> returns an item in which every value stored under a name comes from non-empty
  text of a column of that name.  So a name is absent from the item when the text of every
  column of that name is empty; with distinct column names, the name of every column whose
  text is empty is absent.  Nothing is stored for empty text.
\<close>

theorem Read_elides_empty_text:
  assumes "pending (r c) = row # rest"
    and "FieldsPerRecord (r c) \<le> 0 \<or> FieldsPerRecord (r c) = int (length row)"
    and "length (columnNames c) \<le> length row"
  shows "\<exists>m c'. Read c = Inr ((Some m, None), c') \<and>
    (\<forall>k v. m k = Some v \<longrightarrow>
       (\<exists>j<length (columnNames c). columnNames c ! j = k \<and> row ! j \<noteq> [] \<and>
          v = dynamoValue c k (row ! j))) \<and>
    (\<forall>i<length (columnNames c).
       (\<forall>j<length (columnNames c). columnNames c ! j = columnNames c ! i \<longrightarrow> row ! j = []) \<longrightarrow>
       m (columnNames c ! i) = None) \<and>
    (distinct (columnNames c) \<longrightarrow>
       (\<forall>i<length (columnNames c). row ! i = [] \<longrightarrow> m (columnNames c ! i) = None))"
proof -
  obtain m where m: "Read_loop c row 0 (columnNames c) Map.empty = Inr m"
    using Read_loop_total [of 0 "columnNames c" row c Map.empty] assms(3) by auto
  have rd: "Read c = Inr ((Some m, None), c\<lparr>r := snd (Reader_Read (r c))\<rparr>)"
    using Read_item [OF assms(1,2)] m by simp
  have stored: "\<exists>j<length (columnNames c). columnNames c ! j = k \<and> row ! j \<noteq> [] \<and>
          v = dynamoValue c k (row ! j)" if "m k = Some v" for k v
    using Read_loop_stored [OF m that] by auto
  have absent: "m (columnNames c ! i) = None"
    if "i < length (columnNames c)" "\<forall>j<length (columnNames c). columnNames c ! j = columnNames c ! i \<longrightarrow> row ! j = []"
    for i
  proof (cases "m (columnNames c ! i)")
    case None
    then show ?thesis .
  next
    case (Some v)
    from stored [OF Some] that(2) show ?thesis by blast
  qed
  have dist: "m (columnNames c ! i) = None"
    if d: "distinct (columnNames c)" and i: "i < length (columnNames c)" and e: "row ! i = []" for i
  proof (rule absent [OF i], intro allI impI)
    fix j assume "j < length (columnNames c)" "columnNames c ! j = columnNames c ! i"
    then have "j = i" using d i by (simp add: nth_eq_iff_index_eq)
    then show "row ! j = []" using e by simp
  qed
  show ?thesis using rd stored absent dist by blast
qed


theorem Read_elides_empty_text_witness:
  "\<exists>m c'.
     Read \<lparr>r = \<lparr>pending = [[''the'', [], ''cork'']], FieldsPerRecord = 3\<rparr>,
           conf = NewConfiguration, columnNames = [''a'', ''b'', ''c''],
           columnNamesToInclude = []\<rparr> = Inr ((Some m, None), c') \<and>
     m ''b'' = None"
proof -
  let ?c = "\<lparr>r = \<lparr>pending = [[''the'', [], ''cork'']], FieldsPerRecord = 3\<rparr>,
           conf = NewConfiguration, columnNames = [''a'', ''b'', ''c''],
           columnNamesToInclude = []\<rparr>"
  have h1: "pending (r ?c) = [''the'', [], ''cork''] # []" by simp
  have h2: "FieldsPerRecord (r ?c) \<le> 0 \<or>
      FieldsPerRecord (r ?c) = int (length [''the'', [], ''cork''])" by simp
  have h3: "length (columnNames ?c) \<le> length [''the'', [], ''cork'']" by simp
  from Read_elides_empty_text [OF h1 h2 h3]
  obtain m c' where rd: "Read ?c = Inr ((Some m, None), c')"
    and d: "distinct (columnNames ?c) \<longrightarrow>
       (\<forall>i<length (columnNames ?c). [''the'', [], ''cork''] ! i = [] \<longrightarrow>
          m (columnNames ?c ! i) = None)"
    by blast
  have "m (columnNames ?c ! 1) = None"
    using d [rule_format, of 1] by simp
  then have "m ''b'' = None" by simp
  with rd show ?thesis by blast
qed

text \<open>
  C5, as stated: for every column whose text is empty, the column's name is absent from
  the item.  With the header \<^verbatim>\<open>a,a\<close> and the row \<^verbatim>\<open>,x\<close> the first column is named \<^verbatim>\<open>a\<close> and
  its text is empty, yet the item holds \<^verbatim>\<open>a\<close>, with the value of the second column.
\<close>

theorem Read_duplicate_column_counterexample:
  "NewConverter (NewReader [[''a'', ''a''], [[], ''x'']]) None =
     (\<lparr>r = \<lparr>pending = [[[], ''x'']], FieldsPerRecord = 2\<rparr>,
       conf = NewConfiguration, columnNames = [''a'', ''a''], columnNamesToInclude = []\<rparr>, None) \<and>
   [[], ''x''] ! 0 = [] \<and>
   Read \<lparr>r = \<lparr>pending = [[[], ''x'']], FieldsPerRecord = 2\<rparr>,
         conf = NewConfiguration, columnNames = [''a'', ''a''], columnNamesToInclude = []\<rparr> =
     Inr ((Some [''a'' \<mapsto> SetS ''x''], None),
          \<lparr>r = \<lparr>pending = [], FieldsPerRecord = 2\<rparr>,
           conf = NewConfiguration, columnNames = [''a'', ''a''], columnNamesToInclude = []\<rparr>)"
  by (simp add: NewConverter_def NewReader_def init_def Reader_Read_def Read_def skipped_def
      dynamoValue_def NewConfiguration_def stringValue_def)

lemma init_explicit_columns:
  assumes "Columns cf \<noteq> []"
  shows "\<exists>c0. NewConverter (NewReader rows) (Some cf) = (c0, None) \<and>
     columnNames c0 = Columns cf \<and> pending (r c0) = rows \<and> FieldsPerRecord (r c0) = 0"
  using assms
  by (simp add: NewConverter_def NewReader_def init_def Let_def)

lemma skipped_no_allow_list: "columnNamesToInclude c = [] \<Longrightarrow> \<not> skipped c column"
  by (simp add: skipped_def)

text \<open>
  C9, amended: with explicit columns \<^verbatim>\<open>init\<close> reads no header, so the reader's field count
  is fixed by the first data row and not by the column list.  For a row that the reader
  accepts (the first row read, or a row with the field count the reader expects), \<^verbatim>\<open>Read\<close>
  panics with an index out of range exactly when a column that the allow-list does not
  skip has an index at or beyond the row's field count; with no allow-list, exactly when
  the row has fewer fields than there are column names.  For a row of another field count
  than the reader expects, \<^verbatim>\<open>Read\<close> returns \<^verbatim>\<open>ErrFieldCount\<close>.
\<close>

theorem Read_index_out_of_range:
  assumes "pending (r c) = row # rest"
  shows "(FieldsPerRecord (r c) \<le> 0 \<or> FieldsPerRecord (r c) = int (length row) \<longrightarrow>
            (Read c = Inl IndexOutOfRange \<longleftrightarrow>
               (\<exists>j<length (columnNames c). length row \<le> j \<and> \<not> skipped c (columnNames c ! j))) \<and>
            (columnNamesToInclude c = [] \<longrightarrow>
               (Read c = Inl IndexOutOfRange \<longleftrightarrow> length row < length (columnNames c)))) \<and>
         (0 < FieldsPerRecord (r c) \<and> FieldsPerRecord (r c) \<noteq> int (length row) \<longrightarrow>
            Read c = Inr ((None, Some ErrFieldCount), c\<lparr>r := (r c)\<lparr>pending := rest\<rparr>\<rparr>)) \<and>
         (Columns cf \<noteq> [] \<longrightarrow>
            (\<exists>c0. NewConverter (NewReader (row # rest)) (Some cf) = (c0, None) \<and>
               columnNames c0 = Columns cf \<and> pending (r c0) = row # rest \<and>
               FieldsPerRecord (r c0) = 0))"
proof -
  have iff: "Read c = Inl IndexOutOfRange \<longleftrightarrow>
      (\<exists>j<length (columnNames c). length row \<le> j \<and> \<not> skipped c (columnNames c ! j))"
    if acc: "FieldsPerRecord (r c) \<le> 0 \<or> FieldsPerRecord (r c) = int (length row)"
  proof (cases "Read_loop c row 0 (columnNames c) Map.empty")
    case (Inl p)
    then have "Read c = Inl IndexOutOfRange"
      and "Read_loop c row 0 (columnNames c) Map.empty = Inl IndexOutOfRange"
      by (cases p, simp add: Read_item [OF assms acc])+
    then show ?thesis
      using Read_loop_panics_iff [of c row 0 "columnNames c" Map.empty] by simp
  next
    case (Inr m)
    then have "Read c \<noteq> Inl IndexOutOfRange"
      by (simp add: Read_item [OF assms acc])
    then show ?thesis
      using Read_loop_panics_iff [of c row 0 "columnNames c" Map.empty] Inr by simp
  qed
  have plain: "Read c = Inl IndexOutOfRange \<longleftrightarrow> length row < length (columnNames c)"
    if "FieldsPerRecord (r c) \<le> 0 \<or> FieldsPerRecord (r c) = int (length row)"
      and "columnNamesToInclude c = []"
    unfolding iff [OF that(1)] using skipped_no_allow_list [OF that(2)] by auto
  have refused: "Read c = Inr ((None, Some ErrFieldCount), c\<lparr>r := (r c)\<lparr>pending := rest\<rparr>\<rparr>)"
    if "0 < FieldsPerRecord (r c)" "FieldsPerRecord (r c) \<noteq> int (length row)"
    using assms that by (simp add: Read_def Reader_Read_def)
  show ?thesis
    using iff plain refused init_explicit_columns [of cf "row # rest"] by blast
qed

theorem Read_index_out_of_range_witness:
  "NewConverter (NewReader [[''x'']])
     (Some \<lparr>KeyToConverter = Map.empty, Columns = [''a'', ''b'', ''c''], KeyColumns = []\<rparr>) =
     (\<lparr>r = \<lparr>pending = [[''x'']], FieldsPerRecord = 0\<rparr>,
       conf = \<lparr>KeyToConverter = Map.empty, Columns = [''a'', ''b'', ''c''], KeyColumns = []\<rparr>,
       columnNames = [''a'', ''b'', ''c''], columnNamesToInclude = []\<rparr>, None) \<and>
   Read \<lparr>r = \<lparr>pending = [[''x'']], FieldsPerRecord = 0\<rparr>,
         conf = \<lparr>KeyToConverter = Map.empty, Columns = [''a'', ''b'', ''c''], KeyColumns = []\<rparr>,
         columnNames = [''a'', ''b'', ''c''], columnNamesToInclude = []\<rparr> = Inl IndexOutOfRange \<and>
   Read \<lparr>r = \<lparr>pending = [[''x'']], FieldsPerRecord = 3\<rparr>,
         conf = \<lparr>KeyToConverter = Map.empty, Columns = [''a'', ''b'', ''c''], KeyColumns = []\<rparr>,
         columnNames = [''a'', ''b'', ''c''], columnNamesToInclude = []\<rparr> =
     Inr ((None, Some ErrFieldCount),
          \<lparr>r = \<lparr>pending = [], FieldsPerRecord = 3\<rparr>,
           conf = \<lparr>KeyToConverter = Map.empty, Columns = [''a'', ''b'', ''c''], KeyColumns = []\<rparr>,
           columnNames = [''a'', ''b'', ''c''], columnNamesToInclude = []\<rparr>)"
proof -
  let ?cf = "\<lparr>KeyToConverter = Map.empty, Columns = [''a'', ''b'', ''c''], KeyColumns = []\<rparr>"
  let ?c = "\<lambda>n. \<lparr>r = \<lparr>pending = [[''x'']], FieldsPerRecord = n\<rparr>, conf = ?cf,
       columnNames = [''a'', ''b'', ''c''], columnNamesToInclude = []\<rparr>"
  have h1: "pending (r (?c n)) = [''x''] # []" for n by simp
  have h2: "FieldsPerRecord (r (?c 0)) \<le> 0 \<or> FieldsPerRecord (r (?c 0)) = int (length [''x''])"
    by simp
  have h3: "Columns ?cf \<noteq> []" by simp
  have h4: "0 < FieldsPerRecord (r (?c 3)) \<and> FieldsPerRecord (r (?c 3)) \<noteq> int (length [''x''])"
    by simp
  have h5: "columnNamesToInclude (?c 0) = []" by simp
  from Read_index_out_of_range [OF h1, of 0 ?cf] h2 h3 h5
  have a: "Read (?c 0) = Inl IndexOutOfRange \<longleftrightarrow> length [''x''] < length (columnNames (?c 0))"
    and b: "\<exists>c0. NewConverter (NewReader [[''x'']]) (Some ?cf) = (c0, None) \<and>
       columnNames c0 = Columns ?cf \<and> pending (r c0) = [[''x'']] \<and> FieldsPerRecord (r c0) = 0"
    by blast+
  from a have rd: "Read (?c 0) = Inl IndexOutOfRange" by simp
  from Read_index_out_of_range [OF h1, of 3 ?cf] h4
  have "Read (?c 3) = Inr ((None, Some ErrFieldCount), (?c 3)\<lparr>r := (r (?c 3))\<lparr>pending := []\<rparr>\<rparr>)"
    by blast
  then have refused: "Read (?c 3) = Inr ((None, Some ErrFieldCount),
      \<lparr>r = \<lparr>pending = [], FieldsPerRecord = 3\<rparr>, conf = ?cf,
       columnNames = [''a'', ''b'', ''c''], columnNamesToInclude = []\<rparr>)"
    by simp
  have nc: "NewConverter (NewReader [[''x'']]) (Some ?cf) = (?c 0, None)"
    by (simp add: NewConverter_def NewReader_def init_def)
  from rd nc refused show ?thesis by simp
qed

text \<open>
  C9, as stated: with explicit columns, \<^verbatim>\<open>Read\<close> of a row with fewer fields than the column
  list indexes out of bounds and returns no field-count error.  First, with columns
  \<^verbatim>\<open>a,b\<close> and the allow-list \<^verbatim>\<open>a\<close>, the one-field row \<^verbatim>\<open>x\<close> converts to an item: column \<^verbatim>\<open>b\<close>
  is skipped before the row is indexed.  Second, with columns \<^verbatim>\<open>a,b\<close> and the rows \<^verbatim>\<open>x,y\<close>
  and \<^verbatim>\<open>z\<close>, the second row has fewer fields than the list and \<^verbatim>\<open>Read\<close> returns
  \<^verbatim>\<open>ErrFieldCount\<close> for it.
\<close>

theorem Read_short_row_counterexample:
  "length [''x''] < length [''a'', ''b''] \<and>
   NewConverter (NewReader [[''x'']])
     (Some \<lparr>KeyToConverter = Map.empty, Columns = [''a'', ''b''], KeyColumns = [''a'']\<rparr>) =
     (\<lparr>r = \<lparr>pending = [[''x'']], FieldsPerRecord = 0\<rparr>,
       conf = \<lparr>KeyToConverter = Map.empty, Columns = [''a'', ''b''], KeyColumns = [''a'']\<rparr>,
       columnNames = [''a'', ''b''], columnNamesToInclude = [(''a'', True)]\<rparr>, None) \<and>
   Read \<lparr>r = \<lparr>pending = [[''x'']], FieldsPerRecord = 0\<rparr>,
         conf = \<lparr>KeyToConverter = Map.empty, Columns = [''a'', ''b''], KeyColumns = [''a'']\<rparr>,
         columnNames = [''a'', ''b''], columnNamesToInclude = [(''a'', True)]\<rparr> =
     Inr ((Some [''a'' \<mapsto> SetS ''x''], None),
          \<lparr>r = \<lparr>pending = [], FieldsPerRecord = 1\<rparr>,
           conf = \<lparr>KeyToConverter = Map.empty, Columns = [''a'', ''b''], KeyColumns = [''a'']\<rparr>,
           columnNames = [''a'', ''b''], columnNamesToInclude = [(''a'', True)]\<rparr>) \<and>
   length [''z''] < length [''a'', ''b''] \<and>
   NewConverter (NewReader [[''x'', ''y''], [''z'']])
     (Some \<lparr>KeyToConverter = Map.empty, Columns = [''a'', ''b''], KeyColumns = []\<rparr>) =
     (\<lparr>r = \<lparr>pending = [[''x'', ''y''], [''z'']], FieldsPerRecord = 0\<rparr>,
       conf = \<lparr>KeyToConverter = Map.empty, Columns = [''a'', ''b''], KeyColumns = []\<rparr>,
       columnNames = [''a'', ''b''], columnNamesToInclude = []\<rparr>, None) \<and>
   Read \<lparr>r = \<lparr>pending = [[''x'', ''y''], [''z'']], FieldsPerRecord = 0\<rparr>,
         conf = \<lparr>KeyToConverter = Map.empty, Columns = [''a'', ''b''], KeyColumns = []\<rparr>,
         columnNames = [''a'', ''b''], columnNamesToInclude = []\<rparr> =
     Inr ((Some [''a'' \<mapsto> SetS ''x'', ''b'' \<mapsto> SetS ''y''], None),
          \<lparr>r = \<lparr>pending = [[''z'']], FieldsPerRecord = 2\<rparr>,
           conf = \<lparr>KeyToConverter = Map.empty, Columns = [''a'', ''b''], KeyColumns = []\<rparr>,
           columnNames = [''a'', ''b''], columnNamesToInclude = []\<rparr>) \<and>
   Read \<lparr>r = \<lparr>pending = [[''z'']], FieldsPerRecord = 2\<rparr>,
         conf = \<lparr>KeyToConverter = Map.empty, Columns = [''a'', ''b''], KeyColumns = []\<rparr>,
         columnNames = [''a'', ''b''], columnNamesToInclude = []\<rparr> =
     Inr ((None, Some ErrFieldCount),
          \<lparr>r = \<lparr>pending = [], FieldsPerRecord = 2\<rparr>,
           conf = \<lparr>KeyToConverter = Map.empty, Columns = [''a'', ''b''], KeyColumns = []\<rparr>,
           columnNames = [''a'', ''b''], columnNamesToInclude = []\<rparr>)"
  by (simp add: NewConverter_def NewReader_def init_def Reader_Read_def Read_def skipped_def
      dynamoValue_def stringValue_def)

section \<open>Polling the remote execution\<close>

lemma waitForOutput_running:
  assumes "running D i"
  shows "waitForOutput D i lg =
    waitForOutput D (Suc i) (lg @ [Info ''execution running'', Sleep 5])"
proof -
  from assms obtain deo where "D i = Inr deo" "Status deo = ExecutionStatusRunning"
    by (auto simp: running_def split: sum.splits)
  then show ?thesis
    by (intro trans [OF waitForOutput.simps]) simp
qed

lemma waitForOutput_skip:
  "\<forall>k<n. running D (i + k) \<Longrightarrow>
   waitForOutput D i lg =
   waitForOutput D (i + n) (lg @ concat (replicate n [Info ''execution running'', Sleep 5]))"
proof (induction n arbitrary: i lg)
  case 0
  then show ?case by simp
next
  case (Suc n)
  have r0: "running D i" using Suc.prems by (metis add.right_neutral zero_less_Suc)
  have rest: "\<forall>k<n. running D (Suc i + k)" using Suc.prems by (metis Suc_less_eq add_Suc_shift)
  show ?case
    using Suc.IH [OF rest, of "lg @ [Info ''execution running'', Sleep 5]"]
    by (simp add: waitForOutput_running [OF r0])
qed

lemma waitForOutput_returns:
  assumes "waitForOutput D i lg = Some res"
  shows "\<exists>k. \<not> running D (i + k)"
proof (rule waitForOutput.raw_induct
    [where P = "\<lambda>D i lg res. \<exists>k. \<not> running D (i + k)", OF _ assms])
  fix f and D :: "nat \<Rightarrow> string + DescribeExecutionOutput" and i lg res
  assume IH: "\<And>D i lg res. f D i lg = Some res \<Longrightarrow> \<exists>k. \<not> running D (i + k)"
    and body: "(case D i of
        Inl err \<Rightarrow> Some (lg, Inl ''failed to get execution status'')
      | Inr deo \<Rightarrow>
          if Status deo = ExecutionStatusRunning
          then f D (Suc i) (lg @ [Info ''execution running'', Sleep 5])
          else if Status deo = ExecutionStatusSucceeded
          then Some (lg @ [Info ''execution succeeded''], Inr (Output deo))
          else Some (lg, Inl ''unexpected execution status'')) = Some res"
  show "\<exists>k. \<not> running D (i + k)"
  proof (cases "running D i")
    case False
    then show ?thesis by (metis add.right_neutral)
  next
    case True
    with body have "f D (Suc i) (lg @ [Info ''execution running'', Sleep 5]) = Some res"
      by (auto simp: running_def split: sum.splits)
    from IH [OF this] obtain k where "\<not> running D (Suc i + k)" by blast
    then show ?thesis by (metis add_Suc_shift)
  qed
qed

lemma waitForOutput_forever:
  "\<forall>k. running D k \<Longrightarrow> waitForOutput D i lg = None"
  using waitForOutput_returns [of D i lg] by (cases "waitForOutput D i lg") auto


lemma status_constants_differ: "ExecutionStatusRunning \<noteq> ExecutionStatusSucceeded"
  by (simp add: ExecutionStatusRunning_def ExecutionStatusSucceeded_def)

text \<open>
  C8: let the first \<open>n\<close> status requests be answered with \<^verbatim>\<open>RUNNING\<close> and the next one with
  the status of \<open>deo\<close>.  If that status is \<^verbatim>\<open>RUNNING\<close> again, the loop logs, sleeps five
  seconds and asks again.  If it is \<^verbatim>\<open>SUCCEEDED\<close>, the loop stops and the run is decided by
  the decoding of the output of \<open>deo\<close>.  With any other status the run is the fatal exit
  for the unexpected status, whatever the decoder would answer: the output is not
  decoded.  While every request is answered with \<^verbatim>\<open>RUNNING\<close> the loop does not end.
\<close>

theorem importRemote_polling:
  assumes "\<forall>k<n. running DescribeExecution k" and "DescribeExecution n = Inr deo"
  shows "(Status deo = ExecutionStatusRunning \<longrightarrow>
            waitForOutput DescribeExecution n lg =
            waitForOutput DescribeExecution (Suc n) (lg @ [Info ''execution running'', Sleep 5])) \<and>
         (Status deo = ExecutionStatusSucceeded \<longrightarrow>
            importRemote Unmarshal DescribeExecution =
            Some (concat (replicate n [Info ''execution running'', Sleep 5]) @
                    [Info ''execution succeeded''],
                  case Unmarshal (Output deo) of
                    Inl err \<Rightarrow> Fatal ''failed to unmarshal output''
                  | Inr output \<Rightarrow>
                      Complete (fold (\<lambda>op lines. lines + ProcessedCount op) output 0))) \<and>
         (Status deo \<noteq> ExecutionStatusRunning \<and> Status deo \<noteq> ExecutionStatusSucceeded \<longrightarrow>
            importRemote Unmarshal DescribeExecution =
            Some (concat (replicate n [Info ''execution running'', Sleep 5]),
                  Fatal ''unexpected execution status'')) \<and>
         ((\<forall>k. running DescribeExecution k) \<longrightarrow>
            importRemote Unmarshal DescribeExecution = None)"
proof -
  let ?polled = "concat (replicate n [Info ''execution running'', Sleep 5])"
  have skip: "waitForOutput DescribeExecution 0 [] = waitForOutput DescribeExecution n ?polled"
    using waitForOutput_skip [of n DescribeExecution 0 "[]"] assms(1) by simp
  have goes_on: "waitForOutput DescribeExecution n lg =
      waitForOutput DescribeExecution (Suc n) (lg @ [Info ''execution running'', Sleep 5])"
    if "Status deo = ExecutionStatusRunning"
    by (rule waitForOutput_running) (simp add: running_def assms(2) that)
  have succeeded: "waitForOutput DescribeExecution n ?polled =
      Some (?polled @ [Info ''execution succeeded''], Inr (Output deo))"
    if "Status deo = ExecutionStatusSucceeded"
    using that status_constants_differ
    by (intro trans [OF waitForOutput.simps]) (simp add: assms(2))
  have other: "waitForOutput DescribeExecution n ?polled =
      Some (?polled, Inl ''unexpected execution status'')"
    if "Status deo \<noteq> ExecutionStatusRunning" "Status deo \<noteq> ExecutionStatusSucceeded"
    using that by (intro trans [OF waitForOutput.simps]) (simp add: assms(2))
  have forever: "importRemote Unmarshal DescribeExecution = None"
    if "\<forall>k. running DescribeExecution k"
    using waitForOutput_forever [OF that, of 0 "[]"] by (simp add: importRemote_def)
  show ?thesis
    using goes_on forever
    by (auto simp: importRemote_def skip succeeded other split: sum.splits)
qed

theorem importRemote_polling_witness:
  "importRemote (\<lambda>s. Inl ''invalid character'')
     (\<lambda>i. if i < 2 then Inr \<lparr>Status = ''RUNNING'', Output = []\<rparr>
          else Inr \<lparr>Status = ''FAILED'', Output = ''[]''\<rparr>) =
   Some ([Info ''execution running'', Sleep 5, Info ''execution running'', Sleep 5],
         Fatal ''unexpected execution status'') \<and>
   importRemote (\<lambda>s. Inr [\<lparr>ProcessedCount = 7, DurationMS = 1\<rparr>])
     (\<lambda>i. if i < 2 then Inr \<lparr>Status = ''RUNNING'', Output = []\<rparr>
          else Inr \<lparr>Status = ''SUCCEEDED'', Output = ''[]''\<rparr>) =
   Some ([Info ''execution running'', Sleep 5, Info ''execution running'', Sleep 5,
          Info ''execution succeeded''], Complete 7)"
proof -
  let ?U = "\<lambda>s :: string. Inr [\<lparr>ProcessedCount = 7, DurationMS = 1\<rparr>] :: string + sfnResponse list"
  let ?B = "\<lambda>s :: string. Inl ''invalid character'' :: string + sfnResponse list"
  let ?D = "\<lambda>st (i :: nat). if i < 2 then Inr \<lparr>Status = ''RUNNING'', Output = []\<rparr>
          else Inr \<lparr>Status = st, Output = ''[]''\<rparr> :: string + DescribeExecutionOutput"
  have run: "\<forall>k<2. running (?D st) k" for st
    by (simp add: running_def ExecutionStatusRunning_def)
  have at2: "?D st 2 = Inr \<lparr>Status = st, Output = ''[]''\<rparr>" for st by simp
  have two: "concat (replicate 2 [Info ''execution running'', Sleep 5]) =
      [Info ''execution running'', Sleep 5, Info ''execution running'', Sleep 5]"
    by (simp add: numeral_2_eq_2)
  have failed: "importRemote ?B (?D ''FAILED'') =
      Some ([Info ''execution running'', Sleep 5, Info ''execution running'', Sleep 5],
         Fatal ''unexpected execution status'')"
    using importRemote_polling [OF run at2, of "''FAILED''" "[]" ?B]
    by (simp add: two ExecutionStatusRunning_def ExecutionStatusSucceeded_def)
  have ok: "importRemote ?U (?D ''SUCCEEDED'') =
      Some ([Info ''execution running'', Sleep 5, Info ''execution running'', Sleep 5,
          Info ''execution succeeded''], Complete 7)"
    using importRemote_polling [OF run at2, of "''SUCCEEDED''" "[]" ?U]
    by (simp add: two ExecutionStatusRunning_def ExecutionStatusSucceeded_def)
  from failed ok show ?thesis by simp
qed

section \<open>The progress counters\<close>

lemma counted_start: "counted startShared"
  by (simp add: counted_def startShared_def successful_def progressLogged_def)

lemma counted_step: "counted s \<Longrightarrow> counted (snd (worker_step ok batch s))"
  by (cases ok)
    (auto simp: counted_def worker_step_def successful_def progressLogged_def Let_def
      add.commute add.left_commute)

lemma counted_pool: "counted s \<Longrightarrow> counted (fst (pool W Write i queue s))"
proof (induction W Write i queue s rule: pool.induct)
  case (1 Write i queue s)
  then show ?case by simp
next
  case (2 w Write i s)
  then show ?case by simp
next
  case (3 w Write i batch queue s)
  obtain go s' where st: "worker_step (Write i batch) batch s = (go, s')"
    by (metis prod.exhaust)
  have c': "counted s'" using counted_step [OF "3.prems", of "Write i batch" batch] st by simp
  show ?case
  proof (cases go)
    case True
    with "3.IH"(1) [OF st [symmetric] _ c'] st show ?thesis by simp
  next
    case False
    with "3.IH"(2) [OF st [symmetric] _ c'] st show ?thesis by simp
  qed
qed


lemma sint_of_nat_64: "j < 2 ^ 63 \<Longrightarrow> sint (of_nat j :: 64 word) = int j"
  by (simp add: signed_of_nat signed_take_bit_int_eq_self)

lemma smod_100_iff: "int j smod 100 = 0 \<longleftrightarrow> 100 dvd j"
proof -
  have "int j smod 100 = int j mod 100"
    by (rule smod_mod_positive) simp_all
  then show ?thesis by presburger
qed


lemma worker_step_ok:
  "worker_step True batch s = (go, s') \<Longrightarrow>
   go \<and> batchCount s' = batchCount s + 1 \<and>
   recordCount s' = recordCount s + of_nat (length batch) \<and>
   written s' = written s @ [(batch, True)] \<and>
   logged s' = logged s @ (if sint (batchCount s + 1) smod 100 = 0
                            then [Progress (batchCount s + 1)] else [])"
  by (auto simp: worker_step_def Let_def)

lemma worker_step_failed:
  "worker_step False batch s = (go, s') \<Longrightarrow>
   \<not> go \<and> batchCount s' = batchCount s \<and> recordCount s' = recordCount s \<and>
   written s' = written s @ [(batch, False)] \<and> logged s' = logged s @ [WriteError]"
  by (auto simp: worker_step_def Let_def)

lemma pool_all_written:
  "(\<And>i b. Write i b) \<Longrightarrow>
   \<exists>s'. pool (Suc w) Write i queue s = (s', []) \<and>
     written s' = written s @ map (\<lambda>b. (b, True)) queue"
proof (induction queue arbitrary: i s)
  case Nil
  then show ?case by simp
next
  case (Cons batch queue)
  obtain go s1 where st: "worker_step True batch s = (go, s1)" by (metis prod.exhaust)
  from worker_step_ok [OF st] have go: go and w1: "written s1 = written s @ [(batch, True)]"
    by simp_all
  from Cons.IH [OF Cons.prems, of "Suc i" s1]
  show ?case using st go w1 Cons.prems by simp
qed

lemma counted_progress:
  assumes c: "counted s" and small: "length (successful s) + 1 < 2 ^ 63"
  shows "progressLogged s =
    map of_nat (filter (\<lambda>j. 100 dvd j) [2..<length (successful s) + 2])"
proof -
  define k where "k = length (successful s)"
  have "filter (\<lambda>bc :: 64 word. sint bc smod 100 = 0) (map of_nat [2..<k + 2]) =
      map of_nat (filter (\<lambda>j. 100 dvd j) [2..<k + 2])"
    unfolding filter_map
  proof (rule arg_cong [where f = "map of_nat"], rule filter_cong [OF refl])
    fix j assume "j \<in> set [2..<k + 2]"
    then have "j < k + 2" by (simp only: set_upt atLeastLessThan_iff)
    then have "j < 2 ^ 63" using small unfolding k_def by linarith
    then show "((\<lambda>bc :: 64 word. sint bc smod 100 = 0) \<circ> of_nat) j = (100 dvd j)"
      by (simp add: sint_of_nat_64 smod_100_iff)
  qed
  then show ?thesis using c by (simp add: counted_def k_def)
qed

text \<open>
  C7, amended: the batch counter starts at 1 and the record counter at 0.  A successful
  write adds 1 to the batch counter and the length of the batch to the record counter, and
  a failed write changes neither.  So after \<open>k\<close> batches totalling \<open>n\<close> records have been
  written successfully the record counter is \<open>n\<close> and the batch counter is \<open>k + 1\<close> (as
  64-bit values).  A successful write logs progress exactly when the batch counter it has
  just incremented is a multiple of 100; below \<open>2 ^ 63\<close> these are the counter values
  100, 200, ... up to \<open>k + 1\<close>, reached at the 99th, 199th, ... successful write.
\<close>

theorem pool_counters:
  "(let s = fst (pool W Write 0 queue startShared);
        k = length (successful s);
        n = sum_list (map length (successful s))
    in batchCount s = of_nat k + 1 \<and> recordCount s = of_nat n \<and>
       (k + 1 < 2 ^ 63 \<longrightarrow>
          progressLogged s = map of_nat (filter (\<lambda>j. 100 dvd j) [2..<k + 2]))) \<and>
   (\<forall>batch s go s'. worker_step True batch s = (go, s') \<longrightarrow>
      batchCount s' = batchCount s + 1 \<and>
      recordCount s' = recordCount s + of_nat (length batch) \<and>
      (logged s' \<noteq> logged s \<longleftrightarrow> sint (batchCount s + 1) smod 100 = 0)) \<and>
   (\<forall>batch s go s'. worker_step False batch s = (go, s') \<longrightarrow>
      batchCount s' = batchCount s \<and> recordCount s' = recordCount s)"
proof -
  define s where "s = fst (pool W Write 0 queue startShared)"
  define k where "k = length (successful s)"
  have c: "counted s" unfolding s_def by (rule counted_pool [OF counted_start])
  have bc: "batchCount s = of_nat k + 1"
    and rc: "recordCount s = of_nat (sum_list (map length (successful s)))"
    using c by (simp_all add: counted_def k_def)
  have pl: "progressLogged s = map of_nat (filter (\<lambda>j. 100 dvd j) [2..<k + 2])"
    if "k + 1 < 2 ^ 63"
    using counted_progress [OF c] that unfolding k_def by simp
  have step_ok: "batchCount s' = batchCount s0 + 1 \<and>
      recordCount s' = recordCount s0 + of_nat (length batch) \<and>
      (logged s' \<noteq> logged s0 \<longleftrightarrow> sint (batchCount s0 + 1) smod 100 = 0)"
    if "worker_step True batch s0 = (go, s')" for batch s0 go s'
    using worker_step_ok [OF that] by auto
  have step_failed: "batchCount s' = batchCount s0 \<and> recordCount s' = recordCount s0"
    if "worker_step False batch s0 = (go, s')" for batch s0 go s'
    using worker_step_failed [OF that] by auto
  show ?thesis
    using bc rc pl step_ok step_failed
    unfolding Let_def s_def [symmetric] k_def [symmetric] by blast
qed

theorem pool_counters_witness:
  "successful (fst (pool (Suc 0) (\<lambda>i b. True) 0 [[Some Map.empty]] startShared)) =
     [[Some Map.empty]] \<and>
   batchCount (fst (pool (Suc 0) (\<lambda>i b. True) 0 [[Some Map.empty]] startShared)) = 2 \<and>
   recordCount (fst (pool (Suc 0) (\<lambda>i b. True) 0 [[Some Map.empty]] startShared)) = 1 \<and>
   progressLogged (fst (pool (Suc 0) (\<lambda>i b. True) 0 [[Some Map.empty]] startShared)) = []"
proof -
  let ?s = "fst (pool (Suc 0) (\<lambda>i b. True) 0 [[Some Map.empty]] startShared)"
  have k: "successful ?s = [[Some Map.empty]]"
    by (simp add: successful_def worker_step_def startShared_def Let_def)
  have small: "length (successful ?s) + 1 < 2 ^ 63" unfolding k by simp
  from pool_counters [of "Suc 0" "\<lambda>i b. True" "[[Some Map.empty]]"] small
  have "batchCount ?s = of_nat (length (successful ?s)) + 1"
    and "recordCount ?s = of_nat (sum_list (map length (successful ?s)))"
    and "progressLogged ?s =
      map of_nat (filter (\<lambda>j. 100 dvd j) [2..<length (successful ?s) + 2])"
    unfolding Let_def by blast+
  then show ?thesis unfolding k by (simp add: upt_rec)
qed

text \<open>
  C7, as stated: after \<open>k\<close> successful batches the batch counter is \<open>k\<close>, and progress is
  logged when the number of batches written is a multiple of 100.  After one successful
  batch the counter is 2.  After 99 successful batches one progress entry has been logged,
  at the counter value 100, and the 100th successful batch adds none.
\<close>

theorem pool_counters_counterexample:
  "length (successful (fst (pool (Suc 0) (\<lambda>i b. True) 0 [[Some Map.empty]] startShared))) = 1 \<and>
   batchCount (fst (pool (Suc 0) (\<lambda>i b. True) 0 [[Some Map.empty]] startShared)) = 2 \<and>
   length (successful (fst (pool (Suc 0) (\<lambda>i b. True) 0 (replicate 99 []) startShared))) = 99 \<and>
   progressLogged (fst (pool (Suc 0) (\<lambda>i b. True) 0 (replicate 99 []) startShared)) = [100] \<and>
   length (successful (fst (pool (Suc 0) (\<lambda>i b. True) 0 (replicate 100 []) startShared))) = 100 \<and>
   progressLogged (fst (pool (Suc 0) (\<lambda>i b. True) 0 (replicate 100 []) startShared)) = [100]"
proof -
  have one: "length (successful (fst (pool (Suc 0) (\<lambda>i b. True) 0 [[Some Map.empty]] startShared))) = 1 \<and>
   batchCount (fst (pool (Suc 0) (\<lambda>i b. True) 0 [[Some Map.empty]] startShared)) = 2"
    by (simp add: successful_def worker_step_def startShared_def Let_def)
  have len: "length (successful (fst (pool (Suc 0) (\<lambda>i b. True) 0 (replicate n []) startShared))) = n"
    for n
    using pool_all_written [of "\<lambda>i b. True" 0 0 "replicate n []" startShared]
    by (auto simp: successful_def startShared_def filter_map comp_def)
  have prog: "progressLogged (fst (pool (Suc 0) (\<lambda>i b. True) 0 (replicate n []) startShared)) =
      map of_nat (filter (\<lambda>j. 100 dvd j) [2..<n + 2])" if "n + 1 < 2 ^ 63" for n
    using counted_progress [OF counted_pool [OF counted_start],
        of "Suc 0" "\<lambda>i b. True" 0 "replicate n []"] that
    unfolding len by simp
  have p99: "progressLogged (fst (pool (Suc 0) (\<lambda>i b. True) 0 (replicate 99 []) startShared)) = [100]"
    by (subst prog) (simp_all add: upt_rec)
  have p100: "progressLogged (fst (pool (Suc 0) (\<lambda>i b. True) 0 (replicate 100 []) startShared)) = [100]"
    by (subst prog) (simp_all add: upt_rec)
  show ?thesis using one len [of 99] len [of 100] p99 p100 by blast
qed

section \<open>The final batch of a local import\<close>

lemma produce_uniform:
  assumes "uniformRows n c" "length (pending (r c)) = 25 * m + q" "q < 25"
  shows "\<exists>bs final. produce c = (bs @ [final], Closed) \<and> length bs = m \<and>
     (\<forall>b \<in> set bs. length b = 25) \<and> length final = q"
  using assms(1,2)
proof (induction m arbitrary: c)
  case 0
  with ReadBatch_partial [OF "0.prems"(1)] assms(3)
  obtain its c' where "ReadBatch c = Inr ((its, q, Some EOF), c')" "length its = q"
    by auto
  then have "produce c = ([] @ [its], Closed)"
    by (subst produce.simps) simp
  with \<open>length its = q\<close> show ?case
    by (intro exI [of _ "[]"] exI [of _ its]) simp
next
  case (Suc m)
  then have "25 \<le> length (pending (r c))" by simp
  from ReadBatch_full [OF Suc.prems(1) this]
  obtain its c' where rb: "ReadBatch c = Inr ((its, 25, None), c')" and l: "length its = 25"
    and p: "pending (r c') = drop 25 (pending (r c))" and u: "uniformRows n c'"
    by blast
  have "length (pending (r c')) = 25 * m + q" using p Suc.prems(2) by simp
  from Suc.IH [OF u this] obtain bs final where
    pr: "produce c' = (bs @ [final], Closed)" and bs: "length bs = m"
      "\<forall>b \<in> set bs. length b = 25" "length final = q"
    by blast
  have "produce c = ((its # bs) @ [final], Closed)"
    by (subst produce.simps) (simp add: rb pr)
  moreover have "length (its # bs) = Suc m" "\<forall>b \<in> set (its # bs). length b = 25"
    using bs l by simp_all
  ultimately show ?case using bs(3)
    by (intro exI [of _ "its # bs"] exI [of _ final]) simp
qed


lemma Columns_of_flags:
  "Columns (AddBoolKeys booleanFields (AddNumberKeys numericFields NewConfiguration)) = []"
  by (simp add: AddBoolKeys_def AddNumberKeys_def NewConfiguration_def)

lemma worker_step_written:
  "worker_step ok batch s = (go, s') \<Longrightarrow> written s' = written s @ [(batch, ok)]"
  by (cases ok) (auto dest: worker_step_ok worker_step_failed)

lemma pool_receives_prefix:
  "pool W Write i queue s = (s', left) \<Longrightarrow>
   \<exists>taken. queue = taken @ left \<and> map fst (written s') = map fst (written s) @ taken"
proof (induction W Write i queue s rule: pool.induct)
  case (1 Write i queue s)
  then show ?case by simp
next
  case (2 w Write i s)
  then show ?case by simp
next
  case (3 w Write i batch queue s)
  obtain go s1 where st: "worker_step (Write i batch) batch s = (go, s1)"
    by (metis prod.exhaust)
  note w1 = worker_step_written [OF st]
  show ?case
  proof (cases go)
    case True
    with "3.prems" st have "pool (Suc w) Write (Suc i) queue s1 = (s', left)" by simp
    from "3.IH"(1) [OF st [symmetric] _ this] True
    obtain taken where "queue = taken @ left" "map fst (written s') = map fst (written s1) @ taken"
      by blast
    then show ?thesis using w1 by (intro exI [of _ "batch # taken"]) simp
  next
    case False
    with "3.prems" st have "pool w Write (Suc i) queue s1 = (s', left)" by simp
    from "3.IH"(2) [OF st [symmetric] _ this] False
    obtain taken where "queue = taken @ left" "map fst (written s') = map fst (written s1) @ taken"
      by blast
    then show ?thesis using w1 by (intro exI [of _ "batch # taken"]) simp
  qed
qed

lemma count_empty_received:
  assumes "bs @ [[]] = taken @ left" "[] \<notin> set bs"
  shows "count_list taken [] = (if left = [] then 1 else 0)"
proof (cases "left = []")
  case True
  with assms show ?thesis by auto
next
  case False
  then obtain left' x where l: "left = left' @ [x]" by (metis rev_exhaust)
  with assms(1) have "bs = taken @ left'" by simp
  with assms(2) have "[] \<notin> set taken" by simp
  then show ?thesis using False by simp
qed

lemma importLocal_uniform:
  assumes "header \<noteq> []" and "\<forall>row \<in> set rows. length row = length header"
    and "length rows = 25 * m" and "0 \<le> concurrency"
  shows "\<exists>reader bs s left.
      NewConverter (NewReader (header # rows))
        (Some (AddBoolKeys booleanFields (AddNumberKeys numericFields NewConfiguration))) =
        (reader, None) \<and>
      produce reader = (bs @ [[]], Closed) \<and> length bs = m \<and> (\<forall>b \<in> set bs. length b = 25) \<and>
      pool (nat concurrency) Write 0 (bs @ [[]]) startShared = (s, left) \<and>
      importLocal (header # rows) numericFields booleanFields concurrency Write =
        (if 128 < length left then Blocked else Completed s)"
proof -
  let ?cf = "AddBoolKeys booleanFields (AddNumberKeys numericFields NewConfiguration)"
  from init_from_header [of ?cf header rows, OF Columns_of_flags assms(1)]
  obtain reader where nc: "NewConverter (NewReader (header # rows)) (Some ?cf) = (reader, None)"
    and cn: "columnNames reader = header" and pd: "pending (r reader) = rows"
    and ha: "headerArity reader"
    by blast
  have u: "uniformRows (length header) reader"
    using cn pd ha assms(2) by (simp add: uniformRows_def headerArity_def)
  from produce_uniform [OF u, of m 0] pd assms(3)
  obtain bs where pr: "produce reader = (bs @ [[]], Closed)" and lb: "length bs = m"
    and full: "\<forall>b \<in> set bs. length b = 25"
    by auto
  obtain s left where pl: "pool (nat concurrency) Write 0 (bs @ [[]]) startShared = (s, left)"
    by (metis prod.exhaust)
  have "importLocal (header # rows) numericFields booleanFields concurrency Write =
        (if 128 < length left then Blocked else Completed s)"
    using assms(4) by (simp add: importLocal_def nc pr pl)
  with nc pr lb full pl show ?thesis by blast
qed

text \<open>
  C10, amended: let the input be a header and \<open>25 * m\<close> rows of the header's field count,
  and the worker count not negative.  A \<^verbatim>\<open>ReadBatch\<close> on exhausted input returns no items,
  the count 0 and \<^verbatim>\<open>io.EOF\<close>, and the batches the ingestion loop has to send are \<open>m\<close>
  batches of 25 items and, last, this empty batch.  The workers receive a first part of
  these batches and the sink is called with exactly the batches received; so it is called
  with an empty batch exactly when the last batch is received, and then once.  That is
  the case with at least one worker and a sink that accepts every batch, and the run then
  completes.  Otherwise batches are left unreceived, the empty batch among them (with no
  worker, all of them): the run completes when at most 128 are left, and with more the
  ingestion loop blocks on the full channel.
\<close>

theorem importLocal_final_empty_batch:
  assumes "header \<noteq> []" and "\<forall>row \<in> set rows. length row = length header"
    and "length rows = 25 * m" and "0 \<le> concurrency"
  shows "(\<exists>reader bs s left.
      NewConverter (NewReader (header # rows))
        (Some (AddBoolKeys booleanFields (AddNumberKeys numericFields NewConfiguration))) =
        (reader, None) \<and>
      produce reader = (bs @ [[]], Closed) \<and> length bs = m \<and> (\<forall>b \<in> set bs. length b = 25) \<and>
      pool (nat concurrency) Write 0 (bs @ [[]]) startShared = (s, left) \<and>
      importLocal (header # rows) numericFields booleanFields concurrency Write =
        (if 128 < length left then Blocked else Completed s) \<and>
      bs @ [[]] = map fst (written s) @ left \<and>
      count_list (map fst (written s)) [] = (if left = [] then 1 else 0) \<and>
      (0 < concurrency \<and> (\<forall>i b. Write i b) \<longrightarrow>
         left = [] \<and> map fst (written s) = bs @ [[]] \<and>
         count_list (map fst (written s)) [] = 1 \<and>
         importLocal (header # rows) numericFields booleanFields concurrency Write =
           Completed s) \<and>
      (concurrency = 0 \<longrightarrow> left = bs @ [[]] \<and> written s = [])) \<and>
    (\<forall>c. pending (r c) = [] \<longrightarrow> ReadBatch c = Inr (([], 0, Some EOF), c))"
proof -
  from importLocal_uniform [OF assms, of booleanFields numericFields Write]
  obtain reader bs s left where
    nc: "NewConverter (NewReader (header # rows))
        (Some (AddBoolKeys booleanFields (AddNumberKeys numericFields NewConfiguration))) =
        (reader, None)"
    and pr: "produce reader = (bs @ [[]], Closed)" and lb: "length bs = m"
    and full: "\<forall>b \<in> set bs. length b = 25"
    and pl: "pool (nat concurrency) Write 0 (bs @ [[]]) startShared = (s, left)"
    and il: "importLocal (header # rows) numericFields booleanFields concurrency Write =
        (if 128 < length left then Blocked else Completed s)"
    by blast
  from pool_receives_prefix [OF pl]
  have tk: "bs @ [[]] = map fst (written s) @ left"
    by (simp add: startShared_def)
  have ne: "[] \<notin> set bs" using full by auto
  note cnt = count_empty_received [OF tk ne]
  have live: "left = [] \<and> map fst (written s) = bs @ [[]] \<and>
         count_list (map fst (written s)) [] = 1 \<and>
         importLocal (header # rows) numericFields booleanFields concurrency Write =
           Completed s"
    if "0 < concurrency" "\<forall>i b. Write i b"
  proof -
    from that(1) have "0 < nat concurrency" by simp
    then obtain w where w: "nat concurrency = Suc w"
      by (auto simp: gr0_conv_Suc)
    have aw: "\<And>i b. Write i b" using that(2) by simp
    from pool_all_written [of Write w 0 "bs @ [[]]" startShared, OF aw]
    obtain s2 where "pool (Suc w) Write 0 (bs @ [[]]) startShared = (s2, [])" by blast
    with pl have l: "left = []" unfolding w by simp
    have a: "map fst (written s) = bs @ [[]]"
      using tk [unfolded l append_Nil2] by (rule sym)
    have b: "count_list (map fst (written s)) [] = 1"
      using cnt unfolding l by simp
    have c: "importLocal (header # rows) numericFields booleanFields concurrency Write =
           Completed s"
      using il unfolding l by simp
    from l a b c show ?thesis by (intro conjI)
  qed
  have none: "left = bs @ [[]] \<and> written s = []" if "concurrency = 0"
    using pl unfolding that by (auto simp: startShared_def)
  have run: "\<exists>reader bs s left.
      NewConverter (NewReader (header # rows))
        (Some (AddBoolKeys booleanFields (AddNumberKeys numericFields NewConfiguration))) =
        (reader, None) \<and>
      produce reader = (bs @ [[]], Closed) \<and> length bs = m \<and> (\<forall>b \<in> set bs. length b = 25) \<and>
      pool (nat concurrency) Write 0 (bs @ [[]]) startShared = (s, left) \<and>
      importLocal (header # rows) numericFields booleanFields concurrency Write =
        (if 128 < length left then Blocked else Completed s) \<and>
      bs @ [[]] = map fst (written s) @ left \<and>
      count_list (map fst (written s)) [] = (if left = [] then 1 else 0) \<and>
      (0 < concurrency \<and> (\<forall>i b. Write i b) \<longrightarrow>
         left = [] \<and> map fst (written s) = bs @ [[]] \<and>
         count_list (map fst (written s)) [] = 1 \<and>
         importLocal (header # rows) numericFields booleanFields concurrency Write =
           Completed s) \<and>
      (concurrency = 0 \<longrightarrow> left = bs @ [[]] \<and> written s = [])"
  proof (intro exI conjI)
    show "NewConverter (NewReader (header # rows))
        (Some (AddBoolKeys booleanFields (AddNumberKeys numericFields NewConfiguration))) =
        (reader, None)" by (rule nc)
    show "produce reader = (bs @ [[]], Closed)" by (rule pr)
    show "length bs = m" by (rule lb)
    show "\<forall>b \<in> set bs. length b = 25" by (rule full)
    show "pool (nat concurrency) Write 0 (bs @ [[]]) startShared = (s, left)" by (rule pl)
    show "importLocal (header # rows) numericFields booleanFields concurrency Write =
        (if 128 < length left then Blocked else Completed s)" by (rule il)
    show "bs @ [[]] = map fst (written s) @ left" by (rule tk)
    show "count_list (map fst (written s)) [] = (if left = [] then 1 else 0)" by (rule cnt)
    show "0 < concurrency \<and> (\<forall>i b. Write i b) \<longrightarrow>
         left = [] \<and> map fst (written s) = bs @ [[]] \<and>
         count_list (map fst (written s)) [] = 1 \<and>
         importLocal (header # rows) numericFields booleanFields concurrency Write =
           Completed s"
    proof
      assume "0 < concurrency \<and> (\<forall>i b. Write i b)"
      then show "left = [] \<and> map fst (written s) = bs @ [[]] \<and>
         count_list (map fst (written s)) [] = 1 \<and>
         importLocal (header # rows) numericFields booleanFields concurrency Write =
           Completed s"
        using live by (elim conjE)
    qed
    show "concurrency = 0 \<longrightarrow> left = bs @ [[]] \<and> written s = []"
      using none by (rule impI)
  qed
  have final: "\<forall>c. pending (r c) = [] \<longrightarrow> ReadBatch c = Inr (([], 0, Some EOF), c)"
    by (simp add: ReadBatch_exhausted)
  from run final show ?thesis by (rule conjI)
qed

theorem importLocal_final_empty_batch_witness:
  "(\<exists>s bs. importLocal ([''a''] # replicate 25 [''1'']) [] [] 8 (\<lambda>i b. True) = Completed s \<and>
      map fst (written s) = bs @ [[]] \<and> length bs = 1 \<and>
      count_list (map fst (written s)) [] = 1) \<and>
   (\<exists>s. importLocal [[''a'']] [] [] 8 (\<lambda>i b. True) = Completed s \<and>
      map fst (written s) = [[]] \<and> count_list (map fst (written s)) [] = 1)"
proof -
  let ?W = "\<lambda>(i :: nat) (b :: batch). True"
  have h1: "[''a''] \<noteq> []" by simp
  have h4: "(0 :: int) \<le> 8" by simp
  have h5: "(0 :: int) < 8 \<and> (\<forall>i b. ?W i b)" by simp
  have inst: "\<exists>s bs. importLocal ([''a''] # rows) [] [] 8 ?W = Completed s \<and>
      map fst (written s) = bs @ [[]] \<and> length bs = m \<and>
      count_list (map fst (written s)) [] = 1"
    if h2: "\<forall>row \<in> set rows. length row = length [''a'']" and h3: "length rows = 25 * m"
    for rows m
  proof -
    from importLocal_final_empty_batch [OF h1 h2 h3 h4, of "[]" "[]" ?W]
    have "\<exists>reader bs s left.
      NewConverter (NewReader ([''a''] # rows))
        (Some (AddBoolKeys [] (AddNumberKeys [] NewConfiguration))) = (reader, None) \<and>
      produce reader = (bs @ [[]], Closed) \<and> length bs = m \<and> (\<forall>b \<in> set bs. length b = 25) \<and>
      pool (nat 8) ?W 0 (bs @ [[]]) startShared = (s, left) \<and>
      importLocal ([''a''] # rows) [] [] 8 ?W =
        (if 128 < length left then Blocked else Completed s) \<and>
      bs @ [[]] = map fst (written s) @ left \<and>
      count_list (map fst (written s)) [] = (if left = [] then 1 else 0) \<and>
      (0 < (8 :: int) \<and> (\<forall>i b. ?W i b) \<longrightarrow>
         left = [] \<and> map fst (written s) = bs @ [[]] \<and>
         count_list (map fst (written s)) [] = 1 \<and>
         importLocal ([''a''] # rows) [] [] 8 ?W = Completed s) \<and>
      ((8 :: int) = 0 \<longrightarrow> left = bs @ [[]] \<and> written s = [])"
      by (rule conjunct1)
    then obtain reader bs s left where lb: "length bs = m"
      and live: "0 < (8 :: int) \<and> (\<forall>i b. ?W i b) \<longrightarrow>
         left = ([] :: batch list) \<and> map fst (written s) = bs @ [[]] \<and>
         count_list (map fst (written s)) [] = 1 \<and>
         importLocal ([''a''] # rows) [] [] 8 ?W = Completed s"
      by (elim exE conjE) (rule that, assumption+)
    note lv = live [THEN mp, OF h5]
    note f1 = lv [THEN conjunct2, THEN conjunct1]
    note f2 = lv [THEN conjunct2, THEN conjunct2, THEN conjunct1]
    note f3 = lv [THEN conjunct2, THEN conjunct2, THEN conjunct2]
    from f3 f1 lb f2 show ?thesis by (intro exI [of _ s] exI [of _ bs] conjI)
  qed
  have a: "\<exists>s bs. importLocal ([''a''] # replicate 25 [''1'']) [] [] 8 ?W = Completed s \<and>
      map fst (written s) = bs @ [[]] \<and> length bs = 1 \<and>
      count_list (map fst (written s)) [] = 1"
    by (rule inst) simp_all
  have "\<exists>s bs. importLocal [[''a'']] [] [] 8 ?W = Completed s \<and>
      map fst (written s) = bs @ [[]] \<and> length bs = 0 \<and>
      count_list (map fst (written s)) [] = 1"
    by (rule inst) simp_all
  then obtain s bs where z: "importLocal [[''a'']] [] [] 8 ?W = Completed s"
    "map fst (written s) = bs @ [[]]" "length bs = 0" "count_list (map fst (written s)) [] = 1"
    by (elim exE conjE) (rule that, assumption+)
  from z(3) have "bs = []" by simp
  with z(2) have "map fst (written s) = [[]]" by simp
  with z(1) z(4) have b: "\<exists>s. importLocal [[''a'']] [] [] 8 ?W = Completed s \<and>
      map fst (written s) = [[]] \<and> count_list (map fst (written s)) [] = 1"
    by (intro exI [of _ s] conjI)
  from a b show ?thesis by (rule conjI)
qed

lemma importLocal_blocked_example:
  "importLocal ([''a''] # replicate 3200 [''1'']) [] [] 0 (\<lambda>i b. True) = Blocked"
proof -
  let ?W = "\<lambda>(i :: nat) (b :: batch). True"
  have h1: "[''a''] \<noteq> []" by simp
  have h2: "\<forall>row \<in> set (replicate 3200 [''1'']). length row = length [''a'']" by simp
  have h3: "length (replicate 3200 [''1'']) = 25 * 128" by simp
  have h4: "(0 :: int) \<le> 0" by simp
  from importLocal_uniform [OF h1 h2 h3 h4, of "[]" "[]" ?W]
  obtain reader bs s left where lb: "length bs = 128"
    and pl: "pool (nat 0) ?W 0 (bs @ [[]]) startShared = (s, left)"
    and il: "importLocal ([''a''] # replicate 3200 [''1'']) [] [] 0 ?W =
        (if 128 < length left then Blocked else Completed s)"
    by (elim exE conjE) (rule that)
  from pl have "left = bs @ [[]]" by simp
  with lb have "length left = 129" by simp
  with il show ?thesis by simp
qed

text \<open>
  C10, as stated: whenever the number of rows is a multiple of 25, the ingestion loop
  enqueues the final empty batch and the sink is called once with an empty batch.  With
  one worker and a sink that rejects the first batch, the worker returns after that call;
  on the input of a header and 25 rows the ingestion loop still sends both batches and the
  run completes, and the only call of the sink is the rejected one, with the batch of 25
  items.  With no worker at all the sink is never called; and then, on a header and 3200
  rows, the channel is full after 128 batches and the loop blocks on sending the 129th,
  which is the empty batch.
\<close>

theorem importLocal_no_worker_left_counterexample:
  "importLocal ([''a''] # replicate 25 [''1'']) [] [] 1 (\<lambda>i b. i \<noteq> 0) =
     Completed \<lparr>batchCount = 1, recordCount = 0,
                written = [(replicate 25 (Some [''a'' \<mapsto> SetS ''1'']), False)],
                logged = [WriteError]\<rparr> \<and>
   importLocal [[''a'']] [] [] 0 (\<lambda>i b. True) = Completed startShared \<and>
   importLocal ([''a''] # replicate 3200 [''1'']) [] [] 0 (\<lambda>i b. True) = Blocked"
proof -
  let ?cf = "AddBoolKeys [] (AddNumberKeys [] NewConfiguration)"
  let ?c = "\<lambda>rows. \<lparr>r = \<lparr>pending = rows, FieldsPerRecord = 1\<rparr>, conf = ?cf,
      columnNames = [''a''], columnNamesToInclude = []\<rparr>"
  have nc: "NewConverter (NewReader ([''a''] # rows)) (Some ?cf) = (?c rows, None)" for rows
    by (simp add: NewConverter_def NewReader_def init_def Reader_Read_def AddBoolKeys_def
        AddNumberKeys_def NewConfiguration_def)
  have rb: "ReadBatch (?c (replicate 25 [''1''])) =
      Inr ((replicate 25 (Some [''a'' \<mapsto> SetS ''1'']), 25, None), ?c [])"
    by (simp add: ReadBatch_def ReadBatch_loop.simps Read_def Reader_Read_def skipped_def
        dynamoValue_def stringValue_def AddBoolKeys_def AddNumberKeys_def NewConfiguration_def
        eval_nat_numeral)
  have pr0: "produce (?c []) = ([[]], Closed)"
    by (subst produce.simps) (simp add: ReadBatch_exhausted)
  have pr: "produce (?c (replicate 25 [''1''])) =
      ([replicate 25 (Some [''a'' \<mapsto> SetS ''1'']), []], Closed)"
    by (subst produce.simps) (simp only: rb pr0 sum.case prod.case option.case)
  have first: "importLocal ([''a''] # replicate 25 [''1'']) [] [] 1 (\<lambda>i b. i \<noteq> 0) =
     Completed \<lparr>batchCount = 1, recordCount = 0,
                written = [(replicate 25 (Some [''a'' \<mapsto> SetS ''1'']), False)],
                logged = [WriteError]\<rparr>"
    by (simp add: importLocal_def nc pr worker_step_def startShared_def Let_def)
  have second: "importLocal [[''a'']] [] [] 0 (\<lambda>i b. True) = Completed startShared"
    by (simp add: importLocal_def nc pr0)
  from first second importLocal_blocked_example show ?thesis by (intro conjI)
qed

end
